theory Spec2Isabelle
  imports Complex_Main "HOL-Library.Multiset" "HOL-Library.Word"
begin

section \<open>JavaScript numbers\<close>

text \<open>
  The service computes with JavaScript numbers, IEEE 754 doubles. They are modelled as
  reals extended with the three special values that the code can produce or meet:
  \<open>NaN\<close> (the value of \<open>0/0\<close>, and what \<open>undefined\<close>, the result of reading a typed array
  out of range, becomes in arithmetic) and the two infinities. Every comparison with
  \<open>NaN\<close> is false, and \<open>Math.max\<close>/\<open>Math.min\<close> return \<open>NaN\<close> when an argument is \<open>NaN\<close>.
  The operations \<open>n_add\<close>, \<open>n_sub\<close>, \<open>n_mul\<close> and \<open>n_div\<close> give the exact result;
  \<open>d_add\<close>, \<open>d_sub\<close>, \<open>d_mul\<close> and \<open>d_div\<close> below round it to the nearest double, as
  the machine does, and \<open>toFloat32\<close> is the rounding of a store into a \<open>Float32Array\<close>.
  \<open>calculateIoU\<close> and the loop that fills the input tensor compute with the rounded
  operations; the decoder and the letterbox geometry compute with the exact ones. The
  sign of zero is not modelled.
\<close>

datatype number = Num real | NaN | PInf | NInf

fun n_neg :: "number \<Rightarrow> number" where
  "n_neg (Num a) = Num (- a)"
| "n_neg NaN = NaN"
| "n_neg PInf = NInf"
| "n_neg NInf = PInf"

fun n_add :: "number \<Rightarrow> number \<Rightarrow> number" where
  "n_add (Num a) (Num b) = Num (a + b)"
| "n_add NaN _ = NaN"
| "n_add _ NaN = NaN"
| "n_add PInf NInf = NaN"
| "n_add NInf PInf = NaN"
| "n_add PInf _ = PInf"
| "n_add _ PInf = PInf"
| "n_add NInf _ = NInf"
| "n_add _ NInf = NInf"

definition n_sub :: "number \<Rightarrow> number \<Rightarrow> number" where
  "n_sub a b = n_add a (n_neg b)"

definition signed_inf :: "bool \<Rightarrow> number" where
  "signed_inf positive = (if positive then PInf else NInf)"

fun n_mul :: "number \<Rightarrow> number \<Rightarrow> number" where
  "n_mul (Num a) (Num b) = Num (a * b)"
| "n_mul NaN _ = NaN"
| "n_mul _ NaN = NaN"
| "n_mul PInf (Num b) = (if b = 0 then NaN else signed_inf (0 < b))"
| "n_mul NInf (Num b) = (if b = 0 then NaN else signed_inf (b < 0))"
| "n_mul (Num a) PInf = (if a = 0 then NaN else signed_inf (0 < a))"
| "n_mul (Num a) NInf = (if a = 0 then NaN else signed_inf (a < 0))"
| "n_mul PInf PInf = PInf"
| "n_mul NInf NInf = PInf"
| "n_mul PInf NInf = NInf"
| "n_mul NInf PInf = NInf"

text \<open>Division of two finite numbers: \<open>0/0\<close> is \<open>NaN\<close>, \<open>x/0\<close> is an infinity.\<close>

definition jsDivide :: "real \<Rightarrow> real \<Rightarrow> number" where
  "jsDivide a b =
     (if b \<noteq> 0 then Num (a / b)
      else if a = 0 then NaN
      else signed_inf (0 < a))"

fun n_div :: "number \<Rightarrow> number \<Rightarrow> number" where
  "n_div (Num a) (Num b) = jsDivide a b"
| "n_div NaN _ = NaN"
| "n_div _ NaN = NaN"
| "n_div (Num a) PInf = Num 0"
| "n_div (Num a) NInf = Num 0"
| "n_div PInf (Num b) = signed_inf (0 \<le> b)"
| "n_div NInf (Num b) = signed_inf (b < 0)"
| "n_div PInf PInf = NaN"
| "n_div PInf NInf = NaN"
| "n_div NInf PInf = NaN"
| "n_div NInf NInf = NaN"

fun n_lt :: "number \<Rightarrow> number \<Rightarrow> bool" where
  "n_lt (Num a) (Num b) = (a < b)"
| "n_lt NaN _ = False"
| "n_lt _ NaN = False"
| "n_lt NInf NInf = False"
| "n_lt NInf _ = True"
| "n_lt PInf _ = False"
| "n_lt (Num a) PInf = True"
| "n_lt (Num a) NInf = False"

fun n_le :: "number \<Rightarrow> number \<Rightarrow> bool" where
  "n_le (Num a) (Num b) = (a \<le> b)"
| "n_le NaN _ = False"
| "n_le _ NaN = False"
| "n_le NInf _ = True"
| "n_le PInf PInf = True"
| "n_le PInf _ = False"
| "n_le (Num a) PInf = True"
| "n_le (Num a) NInf = False"

definition n_gt :: "number \<Rightarrow> number \<Rightarrow> bool" where
  "n_gt a b = n_lt b a"

definition n_ge :: "number \<Rightarrow> number \<Rightarrow> bool" where
  "n_ge a b = n_le b a"

text \<open>\<open>Math.max\<close> and \<open>Math.min\<close> of two arguments.\<close>

definition n_max :: "number \<Rightarrow> number \<Rightarrow> number" where
  "n_max a b = (if a = NaN \<or> b = NaN then NaN else if n_lt a b then b else a)"

definition n_min :: "number \<Rightarrow> number \<Rightarrow> number" where
  "n_min a b = (if a = NaN \<or> b = NaN then NaN else if n_lt b a then b else a)"

text \<open>
  Rounding to a binary floating-point format with \<open>p\<close> significant bits, least
  exponent \<open>emin\<close> of the unit in the last place and overflow threshold \<open>2 ^ emax\<close>:
  the real \<open>x\<close> is rounded to the nearest multiple of \<open>2 ^ e\<close>, where \<open>e\<close> is the
  exponent of the unit in the last place at the magnitude of \<open>x\<close>, ties going to the
  even multiple; a result of magnitude \<open>2 ^ emax\<close> or more is an infinity.
\<close>

definition roundHalfEven :: "real \<Rightarrow> int" where
  "roundHalfEven q =
     (let f = \<lfloor>q\<rfloor>; d = q - of_int f
      in if d < 1 / 2 then f
         else if 1 / 2 < d then f + 1
         else if even f then f else f + 1)"

definition pow2 :: "int \<Rightarrow> real" where
  "pow2 e = (if 0 \<le> e then 2 ^ nat e else 1 / 2 ^ nat (- e))"

definition roundBinary :: "nat \<Rightarrow> int \<Rightarrow> int \<Rightarrow> real \<Rightarrow> number" where
  "roundBinary p emin emax x =
     (if x = 0 then Num 0
      else
        (let e = max (\<lfloor>log 2 \<bar>x\<bar>\<rfloor> - int p + 1) emin;
             r = of_int (roundHalfEven (x / pow2 e)) * pow2 e
         in if pow2 emax \<le> \<bar>r\<bar> then signed_inf (0 < x) else Num r))"

definition roundDouble :: "real \<Rightarrow> number" where
  "roundDouble x = roundBinary 53 (- 1074) 1024 x"

definition roundFloat32 :: "real \<Rightarrow> number" where
  "roundFloat32 x = roundBinary 24 (- 149) 128 x"

text \<open>The result of an operation on doubles, and the value kept by a \<open>Float32Array\<close>.\<close>

fun toDouble :: "number \<Rightarrow> number" where
  "toDouble (Num r) = roundDouble r"
| "toDouble NaN = NaN"
| "toDouble PInf = PInf"
| "toDouble NInf = NInf"

fun toFloat32 :: "number \<Rightarrow> number" where
  "toFloat32 (Num r) = roundFloat32 r"
| "toFloat32 NaN = NaN"
| "toFloat32 PInf = PInf"
| "toFloat32 NInf = NInf"

definition d_add :: "number \<Rightarrow> number \<Rightarrow> number" where
  "d_add a b = toDouble (n_add a b)"

definition d_sub :: "number \<Rightarrow> number \<Rightarrow> number" where
  "d_sub a b = toDouble (n_sub a b)"

definition d_mul :: "number \<Rightarrow> number \<Rightarrow> number" where
  "d_mul a b = toDouble (n_mul a b)"

definition d_div :: "number \<Rightarrow> number \<Rightarrow> number" where
  "d_div a b = toDouble (n_div a b)"

section \<open>Detections\<close>

text \<open>
  \<open>interface Detection { class; confidence; bbox: [x, y, width, height] }\<close>.
  The field \<open>class\<close> is called \<open>classLabel\<close> here. The decoder only emits a detection
  after \<open>confidence > 0.25\<close>, \<open>x >= 0\<close>, \<open>y >= 0\<close>, \<open>x + width <= 1\<close> and
  \<open>y + height <= 1\<close> have all succeeded, so none of the five numbers of a detection
  is \<open>NaN\<close>; they are reals.
\<close>

type_synonym bbox = "real \<times> real \<times> real \<times> real"

record Detection =
  classLabel :: string
  confidence :: real
  bbox :: bbox

section \<open>Intersection over union\<close>

text \<open>
  \<open>calculateIoU\<close> on two boxes \<open>[x, y, width, height]\<close>. Every sum, difference, product
  and quotient is a double operation, so its result is rounded.
\<close>

definition calculateIoU :: "bbox \<Rightarrow> bbox \<Rightarrow> number" where
  "calculateIoU bbox1 bbox2 =
     (case bbox1 of (x1, y1, w1, h1) \<Rightarrow>
      case bbox2 of (x2, y2, w2, h2) \<Rightarrow>
        let xLeft = n_max (Num x1) (Num x2);
            yTop = n_max (Num y1) (Num y2);
            xRight = n_min (d_add (Num x1) (Num w1)) (d_add (Num x2) (Num w2));
            yBottom = n_min (d_add (Num y1) (Num h1)) (d_add (Num y2) (Num h2))
        in if n_lt xRight xLeft \<or> n_lt yBottom yTop then Num 0
           else
             let intersectionArea = d_mul (d_sub xRight xLeft) (d_sub yBottom yTop);
                 area1 = d_mul (Num w1) (Num h1);
                 area2 = d_mul (Num w2) (Num h2);
                 unionArea = d_sub (d_add area1 area2) intersectionArea
             in d_div intersectionArea unionArea)"

section \<open>Class-aware non-maximum suppression\<close>

text \<open>
  \<open>detections.sort((a, b) => b.confidence - a.confidence)\<close>: \<open>a\<close> comes before \<open>b\<close>
  when \<open>b.confidence < a.confidence\<close>, and \<open>Array.prototype.sort\<close> is stable, so equal
  confidences keep their order. That is a stable sort on the negated confidence.
\<close>

definition sortByConfidence :: "Detection list \<Rightarrow> Detection list" where
  "sortByConfidence detections = sort_key (\<lambda>d. - confidence d) detections"

text \<open>
  \<open>detectionsByClass\<close> is an object used as a dictionary from class label to the list
  of that class's detections. \<open>for (const className in detectionsByClass)\<close> enumerates
  its keys in the order they were first inserted (the labels the decoder produces,
  catalog names and \<open>class_-1\<close>, are neither array indices nor properties inherited
  from \<open>Object.prototype\<close>), so the dictionary is an association list in insertion
  order.
\<close>

fun groupInsert :: "(string \<times> Detection list) list \<Rightarrow> Detection \<Rightarrow> (string \<times> Detection list) list" where
  "groupInsert [] d = [(classLabel d, [d])]"
| "groupInsert ((k, v) # g) d =
     (if k = classLabel d then (k, v @ [d]) # g else (k, v) # groupInsert g d)"

definition groupByClass :: "Detection list \<Rightarrow> (string \<times> Detection list) list" where
  "groupByClass detections = foldl groupInsert [] detections"

text \<open>
  The inner loop \<open>for (const other of selected)\<close>: \<open>keep\<close> becomes false, and the loop
  stops, at the first selected detection of the same class whose IoU with \<open>current\<close>
  exceeds the threshold.
\<close>

fun keepCandidate :: "real \<Rightarrow> Detection list \<Rightarrow> Detection \<Rightarrow> bool" where
  "keepCandidate iouThreshold [] current = True"
| "keepCandidate iouThreshold (other # rest) current =
     (if classLabel other = classLabel current
         \<and> n_gt (calculateIoU (bbox current) (bbox other)) (Num iouThreshold)
      then False
      else keepCandidate iouThreshold rest current)"

text \<open>The loop over one class's detections; \<open>selected\<close> is shared by all classes.\<close>

fun classLoop :: "real \<Rightarrow> Detection list \<Rightarrow> Detection list \<Rightarrow> Detection list" where
  "classLoop iouThreshold selected [] = selected"
| "classLoop iouThreshold selected (current # rest) =
     classLoop iouThreshold
       (if keepCandidate iouThreshold selected current then selected @ [current] else selected)
       rest"

fun nmsLoop :: "real \<Rightarrow> Detection list \<Rightarrow> (string \<times> Detection list) list \<Rightarrow> Detection list" where
  "nmsLoop iouThreshold selected [] = selected"
| "nmsLoop iouThreshold selected ((className, classDetections) # groups) =
     nmsLoop iouThreshold (classLoop iouThreshold selected classDetections) groups"

definition applyNMS :: "Detection list \<Rightarrow> real \<Rightarrow> Detection list" where
  "applyNMS detections iouThreshold =
     nmsLoop iouThreshold [] (groupByClass (sortByConfidence detections))"

text \<open>The default threshold: the double that the literal \<open>0.45\<close> denotes.\<close>

definition defaultIouThreshold :: real where
  "defaultIouThreshold = 8106479329266893 / 2 ^ 54"

section \<open>The service and its tensors\<close>

text \<open>
  \<open>ort.Tensor\<close>: a flat \<open>Float32Array\<close> and the list of dimension sizes. The values
  stored in an output tensor are taken to be finite (\<open>real Tensor\<close>); the input tensor
  is built by the service and is a \<open>number Tensor\<close>. Reading a typed array at an index
  outside it yields \<open>undefined\<close>, which arithmetic turns into \<open>NaN\<close> and with which
  every comparison is false.
\<close>

record 'a Tensor =
  tdata :: "'a list"
  dims :: "nat list"

definition readF32 :: "real list \<Rightarrow> nat \<Rightarrow> number" where
  "readF32 a i = (if i < length a then Num (a ! i) else NaN)"

text \<open>
  The inference session as far as the service reads it, and the fields of
  \<open>ObjectDetectionService\<close>. \<open>hasLoggedModelInfo\<close> only gates console output, which
  is not modelled.
\<close>

record Session =
  inputNames :: "string list"
  outputNames :: "string list"

record ObjectDetectionService =
  session :: "Session option"
  modelLoaded :: bool
  inputSize :: nat
  classNames :: "string list"

definition newService :: ObjectDetectionService where
  "newService =
     \<lparr>session = None, modelLoaded = False, inputSize = 640,
      classNames = [''left_hand'', ''left_thumb'', ''saung_instrument'',
                    ''right_forefinger'', ''right_hand'', ''right_thumb'']\<rparr>"

section \<open>Decoding the output tensor\<close>

text \<open>The layout chosen from \<open>dim2\<close> and \<open>dim3\<close> at the head of \<open>postprocessOutput\<close>.\<close>

record Layout =
  numAnchors :: nat
  numVectors :: nat
  stride :: nat
  isChannelFirst :: bool

definition resolveLayout :: "nat \<Rightarrow> nat \<Rightarrow> Layout" where
  "resolveLayout dim2 dim3 =
     (if dim3 > dim2
      then \<lparr>numAnchors = dim3, numVectors = dim2, stride = dim3, isChannelFirst = True\<rparr>
      else \<lparr>numAnchors = dim2, numVectors = dim3, stride = 1, isChannelFirst = False\<rparr>)"

definition hasObjectness :: "ObjectDetectionService \<Rightarrow> Layout \<Rightarrow> bool" where
  "hasObjectness this layout \<longleftrightarrow> numVectors layout = 5 + length (classNames this)"

text \<open>
  The flat index the loop body uses for attribute \<open>a\<close> of anchor \<open>i\<close>:
  \<open>a * numAnchors + i\<close> when channel-first, \<open>i * numVectors + a\<close> otherwise.
\<close>

definition attrIndex :: "Layout \<Rightarrow> nat \<Rightarrow> nat \<Rightarrow> nat" where
  "attrIndex layout a i =
     (if isChannelFirst layout then a * numAnchors layout + i
      else i * numVectors layout + a)"

definition classesStartOffset :: "ObjectDetectionService \<Rightarrow> Layout \<Rightarrow> nat" where
  "classesStartOffset this layout = (if hasObjectness this layout then 5 else 4)"

text \<open>
  One round of the loop over the classes: the state is \<open>(maxClassScore, classIndex)\<close>,
  which starts at \<open>(-1, -1)\<close>.
\<close>

definition scoreStep ::
  "real list \<Rightarrow> Layout \<Rightarrow> nat \<Rightarrow> nat \<Rightarrow> number \<times> int \<Rightarrow> nat \<Rightarrow> number \<times> int" where
  "scoreStep outputData layout start i best c =
     (let score = readF32 outputData (attrIndex layout (start + c) i)
      in if n_gt score (fst best) then (score, int c) else best)"

definition maxClass ::
  "ObjectDetectionService \<Rightarrow> real list \<Rightarrow> Layout \<Rightarrow> nat \<Rightarrow> number \<times> int" where
  "maxClass this outputData layout i =
     foldl (scoreStep outputData layout (classesStartOffset this layout) i)
       (Num (- 1), - 1) [0..<length (classNames this)]"

text \<open>Decimal rendering of the class index in the fallback label \<open>class_<index>\<close>.\<close>

fun showNat :: "nat \<Rightarrow> string" where
  "showNat n =
     (if n < 10 then [''0123456789'' ! n]
      else showNat (n div 10) @ [''0123456789'' ! (n mod 10)])"

definition showInt :: "int \<Rightarrow> string" where
  "showInt k = (if k < 0 then CHR ''-'' # showNat (nat (- k)) else showNat (nat k))"

text \<open>
  \<open>this.classNames[classIndex] || `class_${classIndex}`\<close>: the catalog entry, unless
  the index is outside the catalog or the entry is the empty string.
\<close>

definition classNameOf :: "ObjectDetectionService \<Rightarrow> int \<Rightarrow> string" where
  "classNameOf this classIndex =
     (if 0 \<le> classIndex \<and> nat classIndex < length (classNames this)
         \<and> classNames this ! nat classIndex \<noteq> []
      then classNames this ! nat classIndex
      else ''class_'' @ showInt classIndex)"

definition objectness :: "ObjectDetectionService \<Rightarrow> real list \<Rightarrow> Layout \<Rightarrow> nat \<Rightarrow> number" where
  "objectness this outputData layout i =
     (if hasObjectness this layout then readF32 outputData (attrIndex layout 4 i) else Num 1)"

text \<open>\<open>Math.max(0, Math.min(1, v))\<close>.\<close>

definition clamp01 :: "number \<Rightarrow> number" where
  "clamp01 v = n_max (Num 0) (n_min (Num 1) v)"

text \<open>From the centre form in model-input pixels to the normalised top-left form.\<close>

definition normalizeBox ::
  "ObjectDetectionService \<Rightarrow> number \<times> number \<times> number \<times> number
     \<Rightarrow> number \<times> number \<times> number \<times> number" where
  "normalizeBox this box =
     (case box of (cx, cy, w, h) \<Rightarrow>
        (clamp01 (n_div (n_sub cx (n_div w (Num 2))) (Num (real (inputSize this)))),
         clamp01 (n_div (n_sub cy (n_div h (Num 2))) (Num (real (inputSize this)))),
         clamp01 (n_div w (Num (real (inputSize this)))),
         clamp01 (n_div h (Num (real (inputSize this))))))"

definition confidenceThreshold :: real where
  "confidenceThreshold = 25 / 100"

text \<open>
  The body of the loop over the anchors: the detection pushed for anchor \<open>i\<close>, if any.
  Where both tests succeed none of the five numbers is \<open>NaN\<close> or infinite (lemma
  \<open>decodeAnchor_guards\<close>), so the last case never drops a detection. The random
  logging of some detections is not modelled.
\<close>

definition decodeAnchor ::
  "ObjectDetectionService \<Rightarrow> real list \<Rightarrow> Layout \<Rightarrow> nat \<Rightarrow> Detection option" where
  "decodeAnchor this outputData layout i =
     (let cx = readF32 outputData (attrIndex layout 0 i);
          cy = readF32 outputData (attrIndex layout 1 i);
          w = readF32 outputData (attrIndex layout 2 i);
          h = readF32 outputData (attrIndex layout 3 i);
          obj = objectness this outputData layout i;
          (maxClassScore, classIndex) = maxClass this outputData layout i;
          confidence = n_mul obj maxClassScore
      in if n_gt confidence (Num confidenceThreshold)
         then
           (case normalizeBox this (cx, cy, w, h) of (x, y, width, height) \<Rightarrow>
              if n_ge x (Num 0) \<and> n_ge y (Num 0)
                 \<and> n_le (n_add x width) (Num 1) \<and> n_le (n_add y height) (Num 1)
              then
                (case (confidence, x, y, width, height) of
                   (Num c, Num x', Num y', Num w', Num h') \<Rightarrow>
                     Some \<lparr>classLabel = classNameOf this classIndex, confidence = c,
                           bbox = (x', y', w', h')\<rparr>
                 | _ \<Rightarrow> None)
              else None)
         else None)"

text \<open>The loop over the anchors, pushing onto \<open>detections\<close>.\<close>

definition decodeAll ::
  "ObjectDetectionService \<Rightarrow> real list \<Rightarrow> Layout \<Rightarrow> Detection list" where
  "decodeAll this outputData layout =
     foldl (\<lambda>detections i.
              case decodeAnchor this outputData layout i of
                Some d \<Rightarrow> detections @ [d]
              | None \<Rightarrow> detections)
       [] [0..<numAnchors layout]"

text \<open>
  \<open>postprocessOutput\<close>; its parameters \<open>originalWidth\<close> and \<open>originalHeight\<close> are
  never read. \<open>const [dim1, dim2, dim3] = output.dims\<close>: with fewer than three dimensions
  \<open>dim3\<close> (and perhaps \<open>dim2\<close>) is \<open>undefined\<close>: the comparison \<open>dim3 > dim2\<close> is
  false, and either the loop bound or every index is \<open>undefined\<close>/\<open>NaN\<close>, so nothing
  is pushed.
\<close>

definition postprocessOutput :: "ObjectDetectionService \<Rightarrow> real Tensor \<Rightarrow> Detection list" where
  "postprocessOutput this output =
     (case dims output of
        dim1 # dim2 # dim3 # _ \<Rightarrow>
          applyNMS (decodeAll this (tdata output) (resolveLayout dim2 dim3)) defaultIouThreshold
      | _ \<Rightarrow> applyNMS [] defaultIouThreshold)"

section \<open>Letterbox preprocessing\<close>

text \<open>
  The browser as far as \<open>preprocessImage\<close> and \<open>detectObjects\<close> depend on it: whether
  \<open>getContext('2d')\<close> yields a context for the source canvas and for the temporary
  canvas, what \<open>drawImage\<close> paints, and how the race between \<open>session.run\<close> and the
  100 ms timer ends. \<open>drawImage\<close> is given the destination rectangle
  \<open>(offsetX, offsetY, drawWidth, drawHeight)\<close> and tells, for every pixel of the
  temporary canvas (row-major index), the RGBA value it painted there, or \<open>None\<close> where
  it painted nothing.
\<close>

type_synonym byte = "8 word"

type_synonym pixel = "byte \<times> byte \<times> byte \<times> byte"

type_synonym rect = "number \<times> number \<times> number \<times> number"

datatype raceOutcome =
  Resolved "(string \<times> real Tensor) list"
| Rejected string
| TimedOut

record Browser =
  canvasContext :: bool
  tempContext :: bool
  drawImage :: "rect \<Rightarrow> nat \<Rightarrow> pixel option"
  runInference :: "string \<Rightarrow> number Tensor \<Rightarrow> raceOutcome"

record Canvas =
  canvasWidth :: nat
  canvasHeight :: nat

datatype error =
  CanvasContextError
| TempCanvasContextError
| InferenceTimeout
| InferenceFailure string
| NoValidOutputTensor

text \<open>The aspect-preserving destination rectangle.\<close>

definition letterbox :: "nat \<Rightarrow> nat \<Rightarrow> nat \<Rightarrow> rect" where
  "letterbox targetSize w h =
     (let aspectRatio = n_div (Num (real w)) (Num (real h))
      in if n_gt aspectRatio (Num 1)
         then
           (let drawHeight = n_div (Num (real targetSize)) aspectRatio;
                offsetY = n_div (n_sub (Num (real targetSize)) drawHeight) (Num 2)
            in (Num 0, offsetY, Num (real targetSize), drawHeight))
         else
           (let drawWidth = n_mul (Num (real targetSize)) aspectRatio;
                offsetX = n_div (n_sub (Num (real targetSize)) drawWidth) (Num 2)
            in (offsetX, Num 0, drawWidth, Num (real targetSize))))"

text \<open>\<open>fillStyle = '#808080'\<close>, \<open>fillRect(0, 0, inputSize, inputSize)\<close>.\<close>

definition grayPixel :: pixel where
  "grayPixel = (128, 128, 128, 255)"

definition fillRect :: "nat \<Rightarrow> pixel list" where
  "fillRect targetSize = replicate (targetSize * targetSize) grayPixel"

definition paint :: "(nat \<Rightarrow> pixel option) \<Rightarrow> pixel list \<Rightarrow> pixel list" where
  "paint painted canvas =
     map (\<lambda>p. case painted p of Some px \<Rightarrow> px | None \<Rightarrow> canvas ! p) [0..<length canvas]"

text \<open>\<open>getImageData\<close>: the pixels as a flat RGBA byte array.\<close>

definition getImageData :: "pixel list \<Rightarrow> byte list" where
  "getImageData canvas = concat (map (\<lambda>(r, g, b, a). [r, g, b, a]) canvas)"

definition readU8 :: "byte list \<Rightarrow> nat \<Rightarrow> number" where
  "readU8 a i = (if i < length a then Num (real (unat (a ! i))) else NaN)"

text \<open>
  The loop \<open>for (let i = 0; i < resizedData.length; i += 4)\<close> that writes the three
  planes of \<open>input\<close>, a \<open>Float32Array\<close>: the quotient \<open>resizedData[i] / 255.0\<close> is a
  double, and the store rounds it to single precision. A write outside a typed array
  has no effect, as \<open>list_update\<close>.
\<close>

function fillInput :: "nat \<Rightarrow> byte list \<Rightarrow> nat \<Rightarrow> number list \<Rightarrow> number list" where
  "fillInput targetSize resizedData i input =
     (if i < length resizedData
      then
        (let pixelIndex = i div 4
         in fillInput targetSize resizedData (i + 4)
              (input
                 [pixelIndex := toFloat32 (d_div (readU8 resizedData i) (Num 255)),
                  pixelIndex + targetSize * targetSize :=
                    toFloat32 (d_div (readU8 resizedData (i + 1)) (Num 255)),
                  pixelIndex + 2 * targetSize * targetSize :=
                    toFloat32 (d_div (readU8 resizedData (i + 2)) (Num 255))]))
      else input)"
  by pat_completeness auto
termination
  by (relation "measure (\<lambda>(targetSize, resizedData, i, input). length resizedData - i)") auto

declare fillInput.simps [simp del]

definition preprocessImage ::
  "ObjectDetectionService \<Rightarrow> Browser \<Rightarrow> Canvas \<Rightarrow> error + number Tensor" where
  "preprocessImage this browser canvas =
     (if \<not> canvasContext browser then Inl CanvasContextError
      else if \<not> tempContext browser then Inl TempCanvasContextError
      else
        (let targetSize = inputSize this;
             destination = letterbox targetSize (canvasWidth canvas) (canvasHeight canvas);
             tempCanvas = paint (drawImage browser destination) (fillRect targetSize);
             resizedData = getImageData tempCanvas;
             input = fillInput targetSize resizedData 0 (replicate (3 * targetSize * targetSize) (Num 0))
         in Inr \<lparr>tdata = input, dims = [1, 3, targetSize, targetSize]\<rparr>))"

section \<open>The detect operation\<close>

text \<open>
  What \<open>detectObjects\<close> reads of the video or image element: \<open>videoWidth\<close> and
  \<open>videoHeight\<close> (or \<open>naturalWidth\<close> and \<open>naturalHeight\<close>), and for a video its
  playback state.
\<close>

record MediaSource =
  isVideo :: bool
  mediaWidth :: nat
  mediaHeight :: nat
  readyState :: nat
  paused :: bool
  ended :: bool
  seeking :: bool
  networkLoading :: bool

text \<open>\<open>this.session.inputNames[0] || 'images'\<close>.\<close>

definition inputNameOf :: "Session \<Rightarrow> string" where
  "inputNameOf sess =
     (case inputNames sess of
        [] \<Rightarrow> ''images''
      | name # _ \<Rightarrow> if name = [] then ''images'' else name)"

text \<open>
  \<open>outputs[outputName]\<close>, then the fallback names in order. With no output names the
  key is \<open>undefined\<close>, which indexes the property \<open>"undefined"\<close>.
\<close>

definition fallbackNames :: "string list" where
  "fallbackNames = [''output0'', ''output'', ''predictions'', ''0'']"

fun firstPresent :: "(string \<times> real Tensor) list \<Rightarrow> string list \<Rightarrow> real Tensor option" where
  "firstPresent outputs [] = None"
| "firstPresent outputs (name # names) =
     (case map_of outputs name of
        Some t \<Rightarrow> Some t
      | None \<Rightarrow> firstPresent outputs names)"

definition selectOutput :: "Session \<Rightarrow> (string \<times> real Tensor) list \<Rightarrow> real Tensor option" where
  "selectOutput sess outputs =
     (let outputName = (case outputNames sess of [] \<Rightarrow> ''undefined'' | name # _ \<Rightarrow> name)
      in case map_of outputs outputName of
           Some t \<Rightarrow> Some t
         | None \<Rightarrow> firstPresent outputs fallbackNames)"

text \<open>
  \<open>detectObjects\<close>. The result is the value the promise resolves to (\<open>Inr\<close>) or the
  error it rejects with (\<open>Inl\<close>). The \<open>catch\<close> block logs the error and throws it
  again, so every error raised in the \<open>try\<close> block is the error of the call.
\<close>

definition detectObjects ::
  "ObjectDetectionService \<Rightarrow> Browser \<Rightarrow> MediaSource \<Rightarrow> error + Detection list" where
  "detectObjects this browser mediaSource =
     (case session this of
        None \<Rightarrow> Inr []
      | Some sess \<Rightarrow>
          if \<not> modelLoaded this then Inr []
          else if mediaWidth mediaSource = 0 \<or> mediaHeight mediaSource = 0 then Inr []
          else if isVideo mediaSource
                  \<and> (readyState mediaSource < 2 \<or> paused mediaSource \<or> ended mediaSource)
               then Inr []
          else if isVideo mediaSource \<and> (seeking mediaSource \<or> networkLoading mediaSource)
               then Inr []
          else if \<not> canvasContext browser then Inl CanvasContextError
          else
            (case preprocessImage this browser
                    \<lparr>canvasWidth = mediaWidth mediaSource, canvasHeight = mediaHeight mediaSource\<rparr>
             of
               Inl e \<Rightarrow> Inl e
             | Inr inputTensor \<Rightarrow>
                 (case runInference browser (inputNameOf sess) inputTensor of
                    TimedOut \<Rightarrow> Inl InferenceTimeout
                  | Rejected message \<Rightarrow> Inl (InferenceFailure message)
                  | Resolved outputs \<Rightarrow>
                      (case selectOutput sess outputs of
                         None \<Rightarrow> Inl NoValidOutputTensor
                       | Some outputTensor \<Rightarrow> Inr (postprocessOutput this outputTensor)))))"

text \<open>
  The caller in the hook \<open>useObjectDetection\<close>, \<open>detectOnce\<close>, once a media source is
  chosen: it filters the results by its own confidence threshold, and its \<open>catch\<close>
  block logs the error and returns an empty list. (Its early returns, taken while the
  hook has not seen the model load or finds no media source, return the empty list too.)
\<close>

definition detectOnce ::
  "ObjectDetectionService \<Rightarrow> Browser \<Rightarrow> MediaSource \<Rightarrow> real \<Rightarrow> Detection list" where
  "detectOnce service browser mediaSource threshold =
     (case detectObjects service browser mediaSource of
        Inl e \<Rightarrow> []
      | Inr results \<Rightarrow> filter (\<lambda>detection. threshold \<le> confidence detection) results)"

section \<open>Auxiliary notions for the suppressor\<close>

text \<open>
  The order in which \<open>applyNMS\<close> visits the candidates: the sorted list, regrouped by
  class in order of first appearance.
\<close>

definition arrange :: "Detection list \<Rightarrow> Detection list" where
  "arrange ds = concat (map snd (groupByClass (sortByConfidence ds)))"

text \<open>A direct recursive description of that regrouping.\<close>

function arrangeSpec :: "Detection list \<Rightarrow> Detection list" where
  "arrangeSpec [] = []"
| "arrangeSpec (x # t) =
     x # filter (\<lambda>y. classLabel y = classLabel x) t
       @ arrangeSpec (filter (\<lambda>y. classLabel y \<noteq> classLabel x) t)"
  by pat_completeness auto
termination
  by (relation "measure length") (auto simp: less_Suc_eq_le)

text \<open>
  The shape of a regrouped sorted list: consecutive blocks, one per class, each block
  sorted by decreasing confidence and led by a detection at least as confident as
  everything after it.
\<close>

inductive blocky :: "Detection list \<Rightarrow> bool" where
  blocky_Nil: "blocky []"
| blocky_Cons:
    "\<lbrakk>\<forall>y \<in> set b. classLabel y = classLabel x;
      \<forall>y \<in> set rest. classLabel y \<noteq> classLabel x;
      sorted (map (\<lambda>d. - confidence d) (x # b));
      \<forall>y \<in> set rest. confidence y \<le> confidence x;
      blocky rest\<rbrakk>
     \<Longrightarrow> blocky (x # b @ rest)"

text \<open>A list every element of which passes \<open>keepCandidate\<close> against its predecessors.\<close>

fun stableFrom :: "real \<Rightarrow> Detection list \<Rightarrow> Detection list \<Rightarrow> bool" where
  "stableFrom t a [] = True"
| "stableFrom t a (d # b) = (keepCandidate t a d \<and> stableFrom t (a @ [d]) b)"

text \<open>
  Example detections: a thumb inside a hand, and two overlapping instruments. Their
  numbers are doubles.
\<close>

definition handDetection :: Detection where
  "handDetection = \<lparr>classLabel = ''right_hand'', confidence = 15 / 16, bbox = (1/8, 1/8, 1/2, 1/2)\<rparr>"

definition thumbDetection :: Detection where
  "thumbDetection = \<lparr>classLabel = ''right_thumb'', confidence = 7 / 8, bbox = (1/4, 1/4, 1/8, 1/8)\<rparr>"

definition saungA :: Detection where
  "saungA = \<lparr>classLabel = ''saung_instrument'', confidence = 7 / 8, bbox = (1/8, 1/8, 1/2, 1/2)\<rparr>"

definition saungB :: Detection where
  "saungB = \<lparr>classLabel = ''saung_instrument'', confidence = 5 / 8, bbox = (1/8, 1/8, 1/2, 3/8)\<rparr>"



section \<open>Auxiliary notions for the decoder\<close>

text \<open>The score the class loop reads for class \<open>c\<close> of anchor \<open>i\<close>.\<close>

definition classScore ::
  "ObjectDetectionService \<Rightarrow> real list \<Rightarrow> Layout \<Rightarrow> nat \<Rightarrow> nat \<Rightarrow> number" where
  "classScore this outputData layout i c =
     readF32 outputData (attrIndex layout (classesStartOffset this layout + c) i)"

text \<open>
  What holds of \<open>(maxClassScore, classIndex)\<close> after the first \<open>n\<close> classes: no score
  seen exceeds \<open>maxClassScore\<close>, and either nothing exceeded the initial \<open>-1\<close> or
  \<open>classIndex\<close> is the first class that reaches \<open>maxClassScore\<close>.
\<close>

definition scanInvariant :: "(nat \<Rightarrow> number) \<Rightarrow> nat \<Rightarrow> number \<times> int \<Rightarrow> bool" where
  "scanInvariant sc n best \<longleftrightarrow>
     (case best of (mx, k) \<Rightarrow>
        \<exists>m. mx = Num m
          \<and> (\<forall>c<n. \<not> n_gt (sc c) (Num m))
          \<and> ((k = - 1 \<and> m = - 1)
              \<or> (0 \<le> k \<and> nat k < n \<and> sc (nat k) = Num m \<and> - 1 < m
                  \<and> (\<forall>c<nat k. \<not> n_ge (sc c) (Num m)))))"

text \<open>
  An example output of shape \<open>[1, 11, 11]\<close> (anchor-first, with objectness, for the
  six-class catalog): the first anchor is given, the other ten are zero.
\<close>

definition singleAnchorOutput :: "real list \<Rightarrow> real Tensor" where
  "singleAnchorOutput anchor = \<lparr>tdata = anchor @ replicate 110 0, dims = [1, 11, 11]\<rparr>"

definition handAnchor :: "real list" where
  "handAnchor = [320, 320, 64, 64, 1, 1/10, 1/10, 1/10, 1/10, 9/10, 2/10]"

text \<open>The detection decoded from \<open>handAnchor\<close>.\<close>

definition handResult :: Detection where
  "handResult = \<lparr>classLabel = ''right_hand'', confidence = 9/10, bbox = (9/20, 9/20, 1/10, 1/10)\<rparr>"

section \<open>Auxiliary notions for preprocessing and detection\<close>

text \<open>
  The value the loop stores for channel \<open>c\<close> (0 red, 1 green, 2 blue) of pixel \<open>p\<close>.
\<close>

definition plane :: "byte list \<Rightarrow> nat \<Rightarrow> nat \<Rightarrow> number" where
  "plane resizedData c p = toFloat32 (d_div (readU8 resizedData (4 * p + c)) (Num 255))"

text \<open>The single-precision value stored for a byte: \<open>b / 255.0\<close> as a double, rounded.\<close>

definition channelValue :: "byte \<Rightarrow> number" where
  "channelValue b = toFloat32 (d_div (Num (real (unat b))) (Num 255))"

text \<open>The temporary canvas after \<open>fillRect\<close> and \<open>drawImage\<close>.\<close>

definition tempCanvasOf :: "ObjectDetectionService \<Rightarrow> Browser \<Rightarrow> Canvas \<Rightarrow> pixel list" where
  "tempCanvasOf this browser canvas =
     paint (drawImage browser
              (letterbox (inputSize this) (canvasWidth canvas) (canvasHeight canvas)))
       (fillRect (inputSize this))"

text \<open>
  An example browser: \<open>drawImage\<close> paints one colour on the pixels whose corner lies
  in the destination rectangle, and every inference loses the race against the timer.
\<close>

definition solidDrawImage :: "nat \<Rightarrow> pixel \<Rightarrow> rect \<Rightarrow> nat \<Rightarrow> pixel option" where
  "solidDrawImage targetSize colour destination p =
     (case destination of (dx, dy, dw, dh) \<Rightarrow>
        let col = Num (real (p mod targetSize)); row = Num (real (p div targetSize))
        in if n_le dx col \<and> n_lt col (n_add dx dw) \<and> n_le dy row \<and> n_lt row (n_add dy dh)
           then Some colour else None)"

definition exampleBrowser :: Browser where
  "exampleBrowser =
     \<lparr>canvasContext = True, tempContext = True,
      drawImage = solidDrawImage 640 (200, 100, 50, 255),
      runInference = (\<lambda>inputName tensor. TimedOut)\<rparr>"

definition exampleCanvas :: Canvas where
  "exampleCanvas = \<lparr>canvasWidth = 640, canvasHeight = 480\<rparr>"

text \<open>A loaded service, a ready image and an image whose size is not known yet.\<close>

definition exampleSession :: Session where
  "exampleSession = \<lparr>inputNames = [''images''], outputNames = [''output0'']\<rparr>"

definition loadedService :: ObjectDetectionService where
  "loadedService = newService\<lparr>session := Some exampleSession, modelLoaded := True\<rparr>"

definition exampleImage :: MediaSource where
  "exampleImage =
     \<lparr>isVideo = False, mediaWidth = 640, mediaHeight = 480, readyState = 0,
      paused = False, ended = False, seeking = False, networkLoading = False\<rparr>"

definition notReadyImage :: MediaSource where
  "notReadyImage = exampleImage\<lparr>mediaWidth := 0, mediaHeight := 0\<rparr>"

section \<open>Properties of rounding\<close>

lemma roundHalfEven_of_int: "roundHalfEven (of_int n) = n"
  by (simp add: roundHalfEven_def)

lemma roundHalfEven_le: "q \<le> of_int n \<Longrightarrow> roundHalfEven q \<le> n"
proof -
  assume q: "q \<le> of_int n"
  show ?thesis
  proof (cases "q = of_int n")
    case True
    then show ?thesis by (simp add: roundHalfEven_of_int)
  next
    case False
    with q have "q < of_int n" by simp
    then have "\<lfloor>q\<rfloor> < n" by (simp add: floor_less_iff)
    then show ?thesis by (auto simp: roundHalfEven_def Let_def)
  qed
qed

lemma roundHalfEven_ge: "of_int n \<le> q \<Longrightarrow> n \<le> roundHalfEven q"
proof -
  assume "of_int n \<le> q"
  then have "n \<le> \<lfloor>q\<rfloor>" by (simp add: le_floor_iff)
  then show ?thesis by (auto simp: roundHalfEven_def Let_def)
qed

lemma pow2_powr: "pow2 e = 2 powr (real_of_int e)"
  by (simp add: pow2_def powr_real_of_int inverse_eq_divide)

lemma pow2_pos: "0 < pow2 e"
  by (simp add: pow2_def)

lemma pow2_neg_nat: "pow2 (- int k) = 1 / 2 ^ k"
  by (cases "k = 0") (simp_all add: pow2_def)


lemma pow2_diff_nat: "pow2 (int a - int b) = 2 ^ a / 2 ^ b"
proof -
  have "pow2 (int a - int b) = 2 powr (real a - real b)" by (simp add: pow2_powr)
  also have "\<dots> = 2 powr (real a) / 2 powr (real b)" by (rule powr_diff)
  also have "\<dots> = 2 ^ a / 2 ^ b" by (simp add: powr_realpow)
  finally show ?thesis .
qed

lemma roundBinary_scaled:
  assumes p: "1 \<le> p" "int p < emax" and k: "emin \<le> - int k"
    and lo: "2 ^ (p - 1) \<le> \<bar>x\<bar> * 2 ^ k" and hi: "\<bar>x\<bar> * 2 ^ k < 2 ^ p"
  shows "roundBinary p emin emax x = Num (of_int (roundHalfEven (x * 2 ^ k)) / 2 ^ k)"
proof -
  have x0: "x \<noteq> 0"
  proof
    assume "x = 0"
    with lo have "(2::real) ^ (p - 1) \<le> 0" by simp
    moreover have "(0::real) < 2 ^ (p - 1)" by simp
    ultimately show False by linarith
  qed
  then have xpos: "0 < \<bar>x\<bar>" by simp
  have "pow2 (int (p - 1) - int k) \<le> \<bar>x\<bar>"
    using lo by (simp add: pow2_diff_nat field_simps)
  moreover have "\<bar>x\<bar> < pow2 (int p - int k)"
    using hi by (simp add: pow2_diff_nat field_simps)
  moreover have "int (p - 1) - int k + 1 = int p - int k" using p(1) by simp
  ultimately have "\<lfloor>log 2 \<bar>x\<bar>\<rfloor> = int (p - 1) - int k"
    using floor_log_eq_powr_iff [OF xpos, of 2 "int (p - 1) - int k"]
    by (simp add: pow2_powr)
  then have e: "max (\<lfloor>log 2 \<bar>x\<bar>\<rfloor> - int p + 1) emin = - int k"
    using k p(1) by simp
  let ?m = "roundHalfEven (x * 2 ^ k)"
  have "\<bar>x * 2 ^ k\<bar> = \<bar>x\<bar> * 2 ^ k" by (simp add: abs_mult)
  with hi have "\<bar>x * 2 ^ k\<bar> < 2 ^ p" by simp
  then have "x * 2 ^ k \<le> 2 ^ p" "- (2 ^ p) \<le> x * 2 ^ k" by linarith+
  then have "x * 2 ^ k \<le> of_int (2 ^ p)" "of_int (- (2 ^ p)) \<le> x * 2 ^ k"
    by simp_all
  then have "?m \<le> 2 ^ p" "- (2 ^ p) \<le> ?m"
    using roundHalfEven_le roundHalfEven_ge by blast+
  then have "real_of_int ?m \<le> real_of_int (2 ^ p)"
    "real_of_int (- (2 ^ p)) \<le> real_of_int ?m"
    by (simp_all only: of_int_le_iff)
  then have "real_of_int ?m \<le> 2 ^ p" "- (2 ^ p) \<le> real_of_int ?m" by simp_all
  then have "\<bar>real_of_int ?m\<bar> \<le> 2 ^ p" by linarith
  moreover have "\<bar>real_of_int ?m\<bar> / 2 ^ k \<le> \<bar>real_of_int ?m\<bar> / 1"
    by (rule divide_left_mono) simp_all
  ultimately have "\<bar>real_of_int ?m / 2 ^ k\<bar> \<le> 2 ^ p" by simp
  moreover have "(2::real) ^ p < pow2 emax"
  proof -
    have "pow2 emax = 2 ^ nat emax" using p by (simp add: pow2_def)
    moreover have "p < nat emax" using p by simp
    ultimately show ?thesis by simp
  qed
  ultimately have no_overflow: "\<not> pow2 emax \<le> \<bar>real_of_int ?m / 2 ^ k\<bar>" by simp
  show ?thesis
    using x0 no_overflow
    by (simp add: roundBinary_def e pow2_neg_nat Let_def)
qed

lemma roundHalfEven_near: "\<bar>q - of_int m\<bar> < 1 / 2 \<Longrightarrow> roundHalfEven q = m"
proof -
  assume near: "\<bar>q - of_int m\<bar> < 1 / 2"
  show ?thesis
  proof (cases "of_int m \<le> q")
    case True
    with near have "\<lfloor>q\<rfloor> = m" by (simp add: floor_eq_iff abs_less_iff)
    with near True show ?thesis by (simp add: roundHalfEven_def abs_less_iff)
  next
    case False
    with near have "\<lfloor>q\<rfloor> = m - 1" by (simp add: floor_eq_iff abs_less_iff)
    with near False show ?thesis by (simp add: roundHalfEven_def abs_less_iff)
  qed
qed

lemma roundBinary_value:
  assumes "1 \<le> p" "int p < emax" "emin \<le> - int k"
    and "2 ^ (p - 1) \<le> \<bar>x\<bar> * 2 ^ k" and "\<bar>x\<bar> * 2 ^ k < 2 ^ p"
    and "\<bar>x * 2 ^ k - of_int m\<bar> < 1 / 2"
  shows "roundBinary p emin emax x = Num (of_int m / 2 ^ k)"
  using roundBinary_scaled [OF assms(1-5)] roundHalfEven_near [OF assms(6)] by simp


lemma pow2_add: "pow2 (a + b) = pow2 a * pow2 b"
  by (simp add: pow2_powr powr_add)

lemma pow2_less_iff: "pow2 a < pow2 b \<longleftrightarrow> a < b"
  by (simp add: pow2_powr)


lemma pow2_of_nonneg: "0 \<le> e \<Longrightarrow> pow2 e = of_int (2 ^ nat e)"
  by (simp add: pow2_def)

lemma floor_log_bounds:
  assumes "v \<noteq> 0"
  shows "pow2 \<lfloor>log 2 \<bar>v\<bar>\<rfloor> \<le> \<bar>v\<bar>" "\<bar>v\<bar> < pow2 (\<lfloor>log 2 \<bar>v\<bar>\<rfloor> + 1)"
proof -
  from assms have "0 < \<bar>v\<bar>" by simp
  from floor_log_eq_powr_iff [OF this, of 2 "\<lfloor>log 2 \<bar>v\<bar>\<rfloor>"]
  show "pow2 \<lfloor>log 2 \<bar>v\<bar>\<rfloor> \<le> \<bar>v\<bar>" "\<bar>v\<bar> < pow2 (\<lfloor>log 2 \<bar>v\<bar>\<rfloor> + 1)"
    by (simp_all add: pow2_powr)
qed

lemma exponent_le:
  assumes "v \<noteq> 0" "\<bar>v\<bar> < pow2 (e + int p)" "emin \<le> e"
  shows "max (\<lfloor>log 2 \<bar>v\<bar>\<rfloor> - int p + 1) emin \<le> e"
proof -
  from floor_log_bounds(1) [OF assms(1)] assms(2)
  have "pow2 \<lfloor>log 2 \<bar>v\<bar>\<rfloor> < pow2 (e + int p)" by linarith
  then have "\<lfloor>log 2 \<bar>v\<bar>\<rfloor> < e + int p" by (simp only: pow2_less_iff)
  with assms(3) show ?thesis by simp
qed


lemma roundBinary_exact:
  assumes v: "v = of_int m * pow2 e'"
    and e': "max (\<lfloor>log 2 \<bar>v\<bar>\<rfloor> - int p + 1) emin \<le> e'"
    and fin: "\<bar>v\<bar> < pow2 emax"
  shows "roundBinary p emin emax v = Num v"
proof (cases "v = 0")
  case True
  then show ?thesis by (simp add: roundBinary_def)
next
  case False
  let ?e = "max (\<lfloor>log 2 \<bar>v\<bar>\<rfloor> - int p + 1) emin"
  have "pow2 e' = pow2 (e' - ?e) * pow2 ?e"
    using pow2_add [of "e' - ?e" ?e] by simp
  also have "pow2 (e' - ?e) = of_int (2 ^ nat (e' - ?e))"
    using e' by (intro pow2_of_nonneg) simp
  finally have "v = of_int (m * 2 ^ nat (e' - ?e)) * pow2 ?e"
    using v by simp
  then have "v / pow2 ?e = of_int (m * 2 ^ nat (e' - ?e))"
    using pow2_pos [of ?e] by (simp add: field_simps)
  then have "of_int (roundHalfEven (v / pow2 ?e)) * pow2 ?e = v"
    using pow2_pos [of ?e] by (simp only: roundHalfEven_of_int) (simp add: field_simps)
  with False fin show ?thesis
    by (simp add: roundBinary_def Let_def)
qed





lemma roundHalfEven_error: "\<bar>of_int (roundHalfEven q) - q\<bar> \<le> 1 / 2"
proof -
  have "of_int \<lfloor>q\<rfloor> \<le> q" "q < of_int \<lfloor>q\<rfloor> + 1" by linarith+
  then show ?thesis by (auto simp: roundHalfEven_def Let_def abs_le_iff)
qed

lemma roundBinary_unit_error:
  assumes p: "1 \<le> p" and emin: "emin \<le> 1 - int p" and emax: "0 < emax"
    and x: "0 \<le> x" "x \<le> 1"
  shows "\<exists>r. roundBinary p emin emax x = Num r \<and> 0 \<le> r \<and> r \<le> 1 \<and> \<bar>r - x\<bar> \<le> 1 / 2 ^ p"
proof (cases "x = 0")
  case True
  then show ?thesis by (simp add: roundBinary_def)
next
  case False
  with x have xpos: "0 < x" by simp
  have "log 2 \<bar>x\<bar> \<le> 0" using xpos x(2) by simp
  then have "\<lfloor>log 2 \<bar>x\<bar>\<rfloor> \<le> \<lfloor>0::real\<rfloor>" by (rule floor_mono)
  then have fl: "\<lfloor>log 2 \<bar>x\<bar>\<rfloor> \<le> 0" by simp
  define E where "E = max (\<lfloor>log 2 \<bar>x\<bar>\<rfloor> - int p + 1) emin"
  have e0: "E \<le> 1 - int p"
    unfolding E_def using emin fl by linarith
  define n where "n = nat (- E)"
  have "E = - int n"
    using e0 p by (simp add: n_def)
  then have e: "max (\<lfloor>log 2 \<bar>x\<bar>\<rfloor> - int p + 1) emin = - int n"
    unfolding E_def .
  have pn: "p \<le> Suc n" using e0 p unfolding \<open>E = - int n\<close> by linarith
  let ?m = "roundHalfEven (x * 2 ^ n)"
  have "of_int 0 \<le> x * 2 ^ n" "x * 2 ^ n \<le> of_int (2 ^ n)"
    using x by (simp_all add: mult_left_le_one_le)
  then have m: "0 \<le> ?m" "?m \<le> 2 ^ n"
    using roundHalfEven_le roundHalfEven_ge by blast+
  then have r: "0 \<le> real_of_int ?m / 2 ^ n" "real_of_int ?m / 2 ^ n \<le> 1"
    by (simp_all add: divide_le_eq_1)
  have "1 < pow2 emax"
  proof -
    have "pow2 emax = 2 ^ nat emax" using emax by (simp add: pow2_def)
    moreover have "0 < nat emax" using emax by simp
    ultimately show ?thesis by (simp add: one_less_power)
  qed
  moreover have "\<bar>real_of_int ?m / 2 ^ n\<bar> = real_of_int ?m / 2 ^ n"
    using r(1) by (rule abs_of_nonneg)
  ultimately have no_overflow: "\<not> pow2 emax \<le> \<bar>real_of_int ?m / 2 ^ n\<bar>"
    using r(2) by linarith
  have "real_of_int ?m / 2 ^ n - x = (real_of_int ?m - x * 2 ^ n) / 2 ^ n"
    by (simp add: field_simps)
  then have "\<bar>real_of_int ?m / 2 ^ n - x\<bar> = \<bar>real_of_int ?m - x * 2 ^ n\<bar> / 2 ^ n"
    by (simp add: abs_divide)
  also have "\<dots> \<le> (1 / 2) / 2 ^ n"
    by (rule divide_right_mono [OF roundHalfEven_error]) simp
  also have "\<dots> = 1 / 2 ^ Suc n" by simp
  also have "\<dots> \<le> 1 / 2 ^ p"
    using pn by (intro divide_left_mono power_increasing) simp_all
  finally have err: "\<bar>real_of_int ?m / 2 ^ n - x\<bar> \<le> 1 / 2 ^ p" .
  show ?thesis
    using False no_overflow r err
    by (simp add: roundBinary_def e pow2_neg_nat Let_def)
qed

lemma roundDouble_unit:
  assumes "0 \<le> x" "x \<le> 1"
  shows "\<exists>r. roundDouble x = Num r \<and> 0 \<le> r \<and> r \<le> 1 \<and> \<bar>r - x\<bar> \<le> 1 / 2 ^ 53"
  unfolding roundDouble_def by (rule roundBinary_unit_error [OF _ _ _ assms]) simp_all

lemma roundFloat32_unit:
  assumes "0 \<le> x" "x \<le> 1"
  shows "\<exists>r. roundFloat32 x = Num r \<and> 0 \<le> r \<and> r \<le> 1 \<and> \<bar>r - x\<bar> \<le> 1 / 2 ^ 24"
  unfolding roundFloat32_def by (rule roundBinary_unit_error [OF _ _ _ assms]) simp_all


lemma roundDouble_value:
  assumes "k \<le> 1074" "2 ^ 52 \<le> \<bar>x\<bar> * 2 ^ k" "\<bar>x\<bar> * 2 ^ k < 2 ^ 53"
    and "\<bar>x * 2 ^ k - of_int m\<bar> < 1 / 2"
  shows "roundDouble x = Num (of_int m / 2 ^ k)"
  unfolding roundDouble_def using assms by (intro roundBinary_value) simp_all

lemma roundFloat32_value:
  assumes "k \<le> 149" "2 ^ 23 \<le> \<bar>x\<bar> * 2 ^ k" "\<bar>x\<bar> * 2 ^ k < 2 ^ 24"
    and "\<bar>x * 2 ^ k - of_int m\<bar> < 1 / 2"
  shows "roundFloat32 x = Num (of_int m / 2 ^ k)"
  unfolding roundFloat32_def using assms by (intro roundBinary_value) simp_all

lemma roundDouble_dyadic:
  assumes m: "\<bar>m\<bar> < 2 ^ 53" and k: "k \<le> 1074"
  shows "roundDouble (of_int m / 2 ^ k) = Num (of_int m / 2 ^ k)"
proof (cases "m = 0")
  case True
  then show ?thesis by (simp add: roundDouble_def roundBinary_def)
next
  case False
  let ?v = "real_of_int m / 2 ^ k"
  have v0: "?v \<noteq> 0" using False by simp
  have v: "?v = of_int m * pow2 (- int k)" by (simp add: pow2_neg_nat)
  from m have am: "\<bar>real_of_int m\<bar> < 2 ^ 53"
    by (metis of_int_abs of_int_less_iff of_int_numeral of_int_power)
  have av: "\<bar>?v\<bar> = \<bar>real_of_int m\<bar> / 2 ^ k" by (simp add: abs_divide)
  have "\<bar>?v\<bar> < 2 ^ 53 / 2 ^ k"
    unfolding av using am by (simp add: divide_strict_right_mono)
  then have lt: "\<bar>?v\<bar> < pow2 (- int k + int 53)"
    using pow2_diff_nat [of 53 k] by (simp add: add.commute)
  have ex: "max (\<lfloor>log 2 \<bar>?v\<bar>\<rfloor> - int 53 + 1) (- 1074) \<le> - int k"
    by (rule exponent_le [OF v0 lt]) (use k in simp)
  have "\<bar>real_of_int m\<bar> / 2 ^ k \<le> \<bar>real_of_int m\<bar> / 1"
    by (rule divide_left_mono) simp_all
  with am have "\<bar>?v\<bar> < 2 ^ 53" unfolding av by simp
  also have "(2::real) ^ 53 < pow2 1024" by (simp add: pow2_def)
  finally have fin: "\<bar>?v\<bar> < pow2 1024" .
  show ?thesis
    unfolding roundDouble_def by (rule roundBinary_exact [OF v ex fin])
qed








section \<open>Properties of the suppressor\<close>

lemma keepCandidate_iff:
  "keepCandidate t sel c \<longleftrightarrow>
     \<not> (\<exists>other \<in> set sel. classLabel other = classLabel c
            \<and> n_gt (calculateIoU (bbox c) (bbox other)) (Num t))"
  by (induction sel) auto

lemma classLoop_append:
  "classLoop t sel (xs @ ys) = classLoop t (classLoop t sel xs) ys"
  by (induction xs arbitrary: sel) auto

lemma nmsLoop_concat:
  "nmsLoop t sel groups = classLoop t sel (concat (map snd groups))"
  by (induction groups arbitrary: sel) (auto simp: classLoop_append)

lemma classLoop_extends:
  "\<exists>ys. classLoop t sel xs = sel @ ys \<and> mset ys \<subseteq># mset xs"
proof (induction xs arbitrary: sel)
  case Nil
  then show ?case by simp
next
  case (Cons x xs)
  show ?case
  proof (cases "keepCandidate t sel x")
    case True
    from Cons.IH [of "sel @ [x]"] obtain ys
      where "classLoop t (sel @ [x]) xs = (sel @ [x]) @ ys" "mset ys \<subseteq># mset xs" by blast
    with True show ?thesis by (intro exI [of _ "x # ys"]) simp
  next
    case False
    from Cons.IH [of sel] obtain ys
      where "classLoop t sel xs = sel @ ys" "mset ys \<subseteq># mset xs" by blast
    moreover have "mset xs \<subseteq># mset (x # xs)" by simp
    ultimately have "mset ys \<subseteq># mset (x # xs)"
      using subset_mset.order_trans by blast
    with False \<open>classLoop t sel xs = sel @ ys\<close> show ?thesis
      by (intro exI [of _ ys]) simp
  qed
qed

lemma groupInsert_keys:
  "map fst (groupInsert g d) =
     (if classLabel d \<in> set (map fst g) then map fst g else map fst g @ [classLabel d])"
  by (induction g d rule: groupInsert.induct) auto

lemma groupInsert_concat_mset:
  "mset (concat (map snd (groupInsert g d))) = mset (concat (map snd g)) + {#d#}"
  by (induction g d rule: groupInsert.induct) auto

lemma foldl_groupInsert_mset:
  "mset (concat (map snd (foldl groupInsert g xs))) = mset (concat (map snd g)) + mset xs"
  by (induction xs arbitrary: g) (auto simp: groupInsert_concat_mset)

lemma applyNMS_arrange: "applyNMS ds t = classLoop t [] (arrange ds)"
  by (simp add: applyNMS_def arrange_def nmsLoop_concat)

lemma mset_arrange: "mset (arrange ds) = mset ds"
  by (simp add: arrange_def groupByClass_def foldl_groupInsert_mset sortByConfidence_def)

lemma applyNMS_mset: "mset (applyNMS ds t) \<subseteq># mset ds"
  using classLoop_extends [of t "[]" "arrange ds"]
  by (auto simp: applyNMS_arrange mset_arrange)

lemma applyNMS_subset: "set (applyNMS ds t) \<subseteq> set ds"
  using applyNMS_mset [of ds t] by (metis set_mset_mono set_mset_mset)

lemma applyNMS_length: "length (applyNMS ds t) \<le> length ds"
  using applyNMS_mset [of ds t] by (metis size_mset_mono size_mset)

lemma classLoop_keeps_selected: "set sel \<subseteq> set (classLoop t sel xs)"
  using classLoop_extends [of t sel xs] by auto

lemma classLoop_discarded:
  "x \<in> set xs \<Longrightarrow> x \<notin> set (classLoop t sel xs) \<Longrightarrow>
     \<exists>k \<in> set (classLoop t sel xs). classLabel k = classLabel x
        \<and> n_gt (calculateIoU (bbox x) (bbox k)) (Num t)"
proof (induction xs arbitrary: sel)
  case Nil
  then show ?case by simp
next
  case (Cons y ys)
  let ?sel' = "if keepCandidate t sel y then sel @ [y] else sel"
  have step: "classLoop t sel (y # ys) = classLoop t ?sel' ys" by simp
  show ?case
  proof (cases "x \<in> set ys")
    case True
    with Cons show ?thesis unfolding step by blast
  next
    case False
    with Cons.prems have xy: "x = y" by simp
    have "\<not> keepCandidate t sel y"
    proof
      assume "keepCandidate t sel y"
      then have "y \<in> set ?sel'" by simp
      then have "y \<in> set (classLoop t ?sel' ys)" using classLoop_keeps_selected by blast
      with Cons.prems xy show False unfolding step by simp
    qed
    then obtain k where "k \<in> set sel" "classLabel k = classLabel y"
        "n_gt (calculateIoU (bbox y) (bbox k)) (Num t)"
      by (auto simp: keepCandidate_iff)
    moreover have "set sel \<subseteq> set (classLoop t sel (y # ys))"
      by (rule classLoop_keeps_selected)
    ultimately show ?thesis using xy by blast
  qed
qed

lemma group_update_absent:
  "c \<notin> fst ` set g \<Longrightarrow> map (\<lambda>(k, v). (k, if k = c then v @ [d] else v)) g = g"
  by (induction g) auto

lemma groupInsert_present:
  "distinct (map fst g) \<Longrightarrow> classLabel d \<in> set (map fst g) \<Longrightarrow>
     groupInsert g d = map (\<lambda>(k, v). (k, if k = classLabel d then v @ [d] else v)) g"
  by (induction g d rule: groupInsert.induct) (auto simp: group_update_absent)

lemma groupInsert_absent:
  "classLabel d \<notin> set (map fst g) \<Longrightarrow> groupInsert g d = g @ [(classLabel d, [d])]"
  by (induction g d rule: groupInsert.induct) auto

lemma groupInsert_distinct:
  "distinct (map fst g) \<Longrightarrow> distinct (map fst (groupInsert g d))"
  by (simp add: groupInsert_keys)

lemma foldl_groupInsert_concat:
  "distinct (map fst g) \<Longrightarrow>
     concat (map snd (foldl groupInsert g t)) =
       concat (map (\<lambda>(k, v). v @ filter (\<lambda>y. classLabel y = k) t) g)
         @ arrangeSpec (filter (\<lambda>y. classLabel y \<notin> set (map fst g)) t)"
proof (induction t arbitrary: g)
  case Nil
  then show ?case by (simp add: case_prod_unfold)
next
  case (Cons d t)
  show ?case
  proof (cases "classLabel d \<in> set (map fst g)")
    case True
    have g': "groupInsert g d = map (\<lambda>(k, v). (k, if k = classLabel d then v @ [d] else v)) g"
      using Cons.prems True by (rule groupInsert_present)
    have keys: "map fst (groupInsert g d) = map fst g"
      using True by (simp add: groupInsert_keys)
    have "concat (map snd (foldl groupInsert g (d # t))) =
        concat (map (\<lambda>(k, v). v @ filter (\<lambda>y. classLabel y = k) t) (groupInsert g d))
          @ arrangeSpec (filter (\<lambda>y. classLabel y \<notin> set (map fst g)) t)"
      using Cons.IH [of "groupInsert g d"] Cons.prems keys
      by (simp add: groupInsert_distinct)
    moreover have "map (\<lambda>(k, v). v @ filter (\<lambda>y. classLabel y = k) t) (groupInsert g d)
        = map (\<lambda>(k, v). v @ filter (\<lambda>y. classLabel y = k) (d # t)) g"
      unfolding g' by (auto simp: case_prod_unfold)
    ultimately show ?thesis using True by simp
  next
    case False
    have g': "groupInsert g d = g @ [(classLabel d, [d])]"
      using False by (rule groupInsert_absent)
    have dist: "distinct (map fst (groupInsert g d))"
      using Cons.prems by (rule groupInsert_distinct)
    have f1: "filter (\<lambda>y. classLabel y \<notin> set (map fst (g @ [(classLabel d, [d])]))) t
        = filter (\<lambda>y. classLabel y \<noteq> classLabel d) (filter (\<lambda>y. classLabel y \<notin> set (map fst g)) t)"
      by (auto intro: filter_cong)
    have f2: "filter (\<lambda>y. classLabel y = classLabel d) (filter (\<lambda>y. classLabel y \<notin> set (map fst g)) t)
        = filter (\<lambda>y. classLabel y = classLabel d) t"
      using False by (induction t) auto
    have f3: "map (\<lambda>(k, v). v @ filter (\<lambda>y. classLabel y = k) (d # t)) g
        = map (\<lambda>(k, v). v @ filter (\<lambda>y. classLabel y = k) t) g"
      using False by (auto simp: rev_image_eqI)
    let ?rest = "filter (\<lambda>y. classLabel y \<notin> set (map fst g)) t"
    have "concat (map snd (foldl groupInsert g (d # t)))
        = concat (map snd (foldl groupInsert (g @ [(classLabel d, [d])]) t))"
      by (simp add: g')
    also have "\<dots> = concat (map (\<lambda>(k, v). v @ filter (\<lambda>y. classLabel y = k) t) (g @ [(classLabel d, [d])]))
          @ arrangeSpec (filter (\<lambda>y. classLabel y \<notin> set (map fst (g @ [(classLabel d, [d])]))) t)"
      using dist unfolding g' by (rule Cons.IH)
    also have "\<dots> = concat (map (\<lambda>(k, v). v @ filter (\<lambda>y. classLabel y = k) t) g)
          @ (d # filter (\<lambda>y. classLabel y = classLabel d) ?rest
               @ arrangeSpec (filter (\<lambda>y. classLabel y \<noteq> classLabel d) ?rest))"
      unfolding f1 f2 by simp
    also have "\<dots> = concat (map (\<lambda>(k, v). v @ filter (\<lambda>y. classLabel y = k) (d # t)) g)
          @ arrangeSpec (d # ?rest)"
      unfolding f3 by simp
    also have "d # ?rest = filter (\<lambda>y. classLabel y \<notin> set (map fst g)) (d # t)"
      using False by simp
    finally show ?thesis .
  qed
qed

lemma groupByClass_concat: "concat (map snd (groupByClass t)) = arrangeSpec t"
  using foldl_groupInsert_concat [of "[]" t] by (simp add: groupByClass_def)

lemma arrange_spec: "arrange ds = arrangeSpec (sortByConfidence ds)"
  by (simp add: arrange_def groupByClass_concat)

lemma set_arrangeSpec: "set (arrangeSpec l) = set l"
  by (induction l rule: arrangeSpec.induct) auto

lemma blocky_arrangeSpec:
  "sorted (map (\<lambda>d. - confidence d) s) \<Longrightarrow> blocky (arrangeSpec s)"
proof (induction s rule: arrangeSpec.induct)
  case 1
  then show ?case by (simp add: blocky_Nil)
next
  case (2 x t)
  let ?b = "filter (\<lambda>y. classLabel y = classLabel x) t"
  let ?r = "filter (\<lambda>y. classLabel y \<noteq> classLabel x) t"
  from "2.prems" have xt: "\<forall>y \<in> set t. confidence y \<le> confidence x"
    and st: "sorted (map (\<lambda>d. - confidence d) t)" by auto
  have "sorted (map (\<lambda>d. - confidence d) ?r)" using st by (rule sorted_filter)
  then have IH: "blocky (arrangeSpec ?r)" by (rule "2.IH")
  have sb: "sorted (map (\<lambda>d. - confidence d) ?b)" using st by (rule sorted_filter)
  have "blocky (x # ?b @ arrangeSpec ?r)"
  proof (rule blocky_Cons)
    show "\<forall>y \<in> set ?b. classLabel y = classLabel x" by simp
    show "\<forall>y \<in> set (arrangeSpec ?r). classLabel y \<noteq> classLabel x"
      by (simp add: set_arrangeSpec)
    show "sorted (map (\<lambda>d. - confidence d) (x # ?b))" using sb xt by auto
    show "\<forall>y \<in> set (arrangeSpec ?r). confidence y \<le> confidence x"
      using xt by (simp add: set_arrangeSpec)
    show "blocky (arrangeSpec ?r)" by (rule IH)
  qed
  then show ?case by simp
qed

lemma arrangeSpec_sort_blocky:
  "blocky l \<Longrightarrow> arrangeSpec (sort_key (\<lambda>d. - confidence d) l) = l"
proof (induction l rule: blocky.induct)
  case blocky_Nil
  then show ?case by simp
next
  case (blocky_Cons b x rest)
  let ?key = "\<lambda>d. - confidence d"
  let ?t = "sort_key ?key (b @ rest)"
  have least: "\<forall>y \<in> set ?t. ?key x \<le> ?key y"
    using blocky_Cons.hyps by auto
  have "sort_key ?key (x # b @ rest) = insort_key ?key x ?t" by simp
  also have "\<dots> = x # ?t" using least by (rule insort_is_Cons)
  finally have s: "sort_key ?key (x # b @ rest) = x # ?t" .
  have fb: "filter (\<lambda>y. classLabel y = classLabel x) (b @ rest) = b"
    using blocky_Cons.hyps by (auto simp: filter_empty_conv filter_id_conv)
  have fr: "filter (\<lambda>y. classLabel y \<noteq> classLabel x) (b @ rest) = rest"
    using blocky_Cons.hyps by (auto simp: filter_empty_conv filter_id_conv)
  have "sorted (map ?key b)" using blocky_Cons.hyps by simp
  then have sb: "sort_key ?key b = b" by (rule sort_key_id_if_sorted)
  have "filter (\<lambda>y. classLabel y = classLabel x) ?t = b"
    by (simp only: filter_sort fb sb)
  moreover have "filter (\<lambda>y. classLabel y \<noteq> classLabel x) ?t = sort_key ?key rest"
    by (simp only: filter_sort fr)
  ultimately show ?case
    unfolding s using blocky_Cons.IH by simp
qed

lemma classLoop_foreign_prefix:
  "\<forall>p \<in> set pre. \<forall>r \<in> set rest. classLabel p \<noteq> classLabel r \<Longrightarrow>
     classLoop t (pre @ sel) rest = pre @ classLoop t sel rest"
proof (induction rest arbitrary: sel)
  case Nil
  then show ?case by simp
next
  case (Cons r rest)
  have k: "keepCandidate t (pre @ sel) r = keepCandidate t sel r"
    using Cons.prems by (auto simp: keepCandidate_iff)
  have "\<forall>p \<in> set pre. \<forall>r \<in> set rest. classLabel p \<noteq> classLabel r"
    using Cons.prems by simp
  note IH = Cons.IH [OF this]
  show ?case
    using IH [of "sel @ [r]"] IH [of sel] by (simp add: k)
qed

lemma classLoop_sorted:
  "sorted (map f (sel @ xs)) \<Longrightarrow> sorted (map f (classLoop t sel xs))"
proof (induction xs arbitrary: sel)
  case Nil
  then show ?case by simp
next
  case (Cons x xs)
  have "sorted (map f ((sel @ [x]) @ xs))" using Cons.prems by simp
  moreover have "sorted (map f (sel @ xs))"
    using Cons.prems by (auto simp: sorted_append)
  ultimately show ?case using Cons.IH by simp
qed

lemma classLoop_set: "set (classLoop t sel xs) \<subseteq> set sel \<union> set xs"
  using classLoop_extends [of t sel xs] by (auto dest: mset_subset_eqD)

lemma blocky_classLoop: "blocky l \<Longrightarrow> blocky (classLoop t [] l)"
proof (induction l rule: blocky.induct)
  case blocky_Nil
  then show ?case by (simp add: blocky.blocky_Nil)
next
  case (blocky_Cons b x rest)
  obtain b' where b': "classLoop t [x] b = [x] @ b'" and sub: "mset b' \<subseteq># mset b"
    using classLoop_extends [of t "[x]" b] by blast
  have setb: "set b' \<subseteq> set b" using sub by (metis set_mset_mono set_mset_mset)
  have cls_b': "\<forall>y \<in> set b'. classLabel y = classLabel x"
    using blocky_Cons.hyps(1) setb by blast
  have foreign: "\<forall>p \<in> set (x # b'). \<forall>r \<in> set rest. classLabel p \<noteq> classLabel r"
    using cls_b' blocky_Cons.hyps(2) by (metis set_ConsD)
  have "classLoop t [] (x # b @ rest) = classLoop t (classLoop t [x] b) rest"
    by (simp add: classLoop_append)
  also have "\<dots> = classLoop t ((x # b') @ []) rest" using b' by simp
  also have "\<dots> = (x # b') @ classLoop t [] rest"
    using foreign by (rule classLoop_foreign_prefix)
  finally have eq: "classLoop t [] (x # b @ rest) = x # b' @ classLoop t [] rest" by simp
  have "sorted (map (\<lambda>d. - confidence d) (classLoop t [x] b))"
    using blocky_Cons.hyps by (intro classLoop_sorted) simp
  then have sorted': "sorted (map (\<lambda>d. - confidence d) (x # b'))" using b' by simp
  have setr: "set (classLoop t [] rest) \<subseteq> set rest"
    using classLoop_set [of t "[]" rest] by simp
  have "blocky (x # b' @ classLoop t [] rest)"
  proof (rule blocky.blocky_Cons)
    show "\<forall>y \<in> set b'. classLabel y = classLabel x" by (rule cls_b')
    show "\<forall>y \<in> set (classLoop t [] rest). classLabel y \<noteq> classLabel x"
      using blocky_Cons.hyps setr by auto
    show "sorted (map (\<lambda>d. - confidence d) (x # b'))" by (rule sorted')
    show "\<forall>y \<in> set (classLoop t [] rest). confidence y \<le> confidence x"
      using blocky_Cons.hyps setr by auto
    show "blocky (classLoop t [] rest)" by (rule blocky_Cons.IH)
  qed
  then show ?case by (simp only: eq)
qed

lemma stableFrom_classLoop: "stableFrom t a b \<Longrightarrow> classLoop t a b = a @ b"
  by (induction b arbitrary: a) auto

lemma classLoop_stable:
  "\<exists>ys. classLoop t sel xs = sel @ ys \<and> stableFrom t sel ys"
proof (induction xs arbitrary: sel)
  case Nil
  then show ?case by simp
next
  case (Cons x xs)
  show ?case
  proof (cases "keepCandidate t sel x")
    case True
    from Cons.IH [of "sel @ [x]"] obtain ys
      where "classLoop t (sel @ [x]) xs = (sel @ [x]) @ ys" "stableFrom t (sel @ [x]) ys" by blast
    with True show ?thesis by (intro exI [of _ "x # ys"]) simp
  next
    case False
    with Cons.IH [of sel] show ?thesis by simp
  qed
qed

lemma classLoop_idem: "classLoop t [] (classLoop t [] xs) = classLoop t [] xs"
  using classLoop_stable [of t "[]" xs] stableFrom_classLoop [of t "[]"] by auto

lemma d_ops_Num:
  "d_add (Num a) (Num b) = roundDouble (a + b)"
  "d_sub (Num a) (Num b) = roundDouble (a - b)"
  "d_mul (Num a) (Num b) = roundDouble (a * b)"
  "b \<noteq> 0 \<Longrightarrow> d_div (Num a) (Num b) = roundDouble (a / b)"
  by (simp_all add: d_add_def d_sub_def n_sub_def d_mul_def d_div_def jsDivide_def)

lemma roundDouble_exact_values:
  "roundDouble 1 = Num 1"
  "roundDouble (1/2) = Num (1/2)"
  "roundDouble (1/4) = Num (1/4)"
  "roundDouble (3/4) = Num (3/4)"
  "roundDouble (3/8) = Num (3/8)"
  "roundDouble (5/8) = Num (5/8)"
  "roundDouble (7/8) = Num (7/8)"
  "roundDouble (3/16) = Num (3/16)"
  "roundDouble (7/16) = Num (7/16)"
  using roundDouble_dyadic [of 1 0] roundDouble_dyadic [of 1 1] roundDouble_dyadic [of 1 2]
    roundDouble_dyadic [of 3 2] roundDouble_dyadic [of 3 3] roundDouble_dyadic [of 5 3]
    roundDouble_dyadic [of 7 3] roundDouble_dyadic [of 3 4] roundDouble_dyadic [of 7 4]
  by simp_all

lemma defaultIouThreshold_literal: "roundDouble (45 / 100) = Num defaultIouThreshold"
  unfolding defaultIouThreshold_def
  using roundDouble_value [of 54 "45 / 100" 8106479329266893] by simp

lemma calculateIoU_saung: "calculateIoU (1/8, 1/8, 1/2, 3/8) (1/8, 1/8, 1/2, 1/2) = Num (3/4)"
  by (simp add: calculateIoU_def d_ops_Num roundDouble_exact_values n_min_def n_max_def)

lemmas nms_eval = applyNMS_def sortByConfidence_def groupByClass_def calculateIoU_saung
  n_gt_def handDetection_def thumbDetection_def saungA_def saungB_def
  defaultIouThreshold_def

text \<open>
  Claim C10: the output of the suppressor is drawn from its input. As multisets the
  output is contained in the input, so every returned detection is an input detection
  with its class, confidence and box as they were, no detection is returned more often
  than it was given, and the output is no longer than the input.
\<close>

theorem applyNMS_output_within_input:
  "mset (applyNMS detections iouThreshold) \<subseteq># mset detections
   \<and> set (applyNMS detections iouThreshold) \<subseteq> set detections
   \<and> length (applyNMS detections iouThreshold) \<le> length detections"
  by (simp add: applyNMS_mset applyNMS_subset applyNMS_length)

theorem applyNMS_output_within_input_witness:
  "applyNMS [saungB, thumbDetection, saungA] defaultIouThreshold = [thumbDetection, saungA]
   \<and> mset [thumbDetection, saungA] \<subseteq># mset [saungB, thumbDetection, saungA]
   \<and> length [thumbDetection, saungA] \<le> length [saungB, thumbDetection, saungA]"
proof -
  have run: "applyNMS [saungB, thumbDetection, saungA] defaultIouThreshold = [thumbDetection, saungA]"
    by (simp add: nms_eval)
  show ?thesis
    using applyNMS_output_within_input [of "[saungB, thumbDetection, saungA]" defaultIouThreshold]
    unfolding run by simp
qed

text \<open>
  Claim C7: the suppressor is idempotent. Its output is a sequence of class blocks, each
  sorted by decreasing confidence and led by a detection no less confident than all that
  follow; the stable sort and the regrouping leave such a list as it is, and every
  element passes the overlap test against its predecessors once more.
\<close>

theorem applyNMS_idempotent:
  "applyNMS (applyNMS detections iouThreshold) iouThreshold = applyNMS detections iouThreshold"
proof -
  let ?out = "applyNMS detections iouThreshold"
  have "blocky (arrange detections)"
    unfolding arrange_spec sortByConfidence_def by (rule blocky_arrangeSpec) simp
  then have "blocky ?out" unfolding applyNMS_arrange by (rule blocky_classLoop)
  then have "arrange ?out = ?out"
    unfolding arrange_spec sortByConfidence_def by (rule arrangeSpec_sort_blocky)
  then have "applyNMS ?out iouThreshold = classLoop iouThreshold [] ?out"
    by (simp add: applyNMS_arrange)
  also have "\<dots> = ?out" unfolding applyNMS_arrange by (rule classLoop_idem)
  finally show ?thesis .
qed

text \<open>
  Claim C5: suppression is per class. A candidate is kept exactly when no detection
  already selected has its class and an IoU with it above the threshold; hence an input
  detection missing from the output has a kept detection of its own class overlapping
  it above the threshold, and a detection that no other input detection of its own
  class overlaps above the threshold survives, whatever boxes of other classes cover it.
\<close>

theorem applyNMS_suppresses_within_class_only:
  "(keepCandidate iouThreshold selected current \<longleftrightarrow>
      \<not> (\<exists>other \<in> set selected. classLabel other = classLabel current
             \<and> n_gt (calculateIoU (bbox current) (bbox other)) (Num iouThreshold)))
   \<and> (d \<in> set detections \<longrightarrow> d \<notin> set (applyNMS detections iouThreshold) \<longrightarrow>
        (\<exists>k \<in> set (applyNMS detections iouThreshold). classLabel k = classLabel d
            \<and> n_gt (calculateIoU (bbox d) (bbox k)) (Num iouThreshold)))
   \<and> (d \<in> set detections \<longrightarrow>
        (\<forall>k \<in> set detections. k \<noteq> d \<longrightarrow> classLabel k = classLabel d \<longrightarrow>
            \<not> n_gt (calculateIoU (bbox d) (bbox k)) (Num iouThreshold)) \<longrightarrow>
        d \<in> set (applyNMS detections iouThreshold))"
proof -
  have discarded: "\<exists>k \<in> set (applyNMS detections iouThreshold). classLabel k = classLabel d
        \<and> n_gt (calculateIoU (bbox d) (bbox k)) (Num iouThreshold)"
    if "d \<in> set detections" "d \<notin> set (applyNMS detections iouThreshold)"
  proof -
    from that(1) have in_order: "d \<in> set (arrange detections)"
      by (metis mset_arrange set_mset_mset)
    from in_order that(2) show ?thesis
      unfolding applyNMS_arrange by (rule classLoop_discarded)
  qed
  have survives: "d \<in> set (applyNMS detections iouThreshold)"
    if "d \<in> set detections"
      and "\<forall>k \<in> set detections. k \<noteq> d \<longrightarrow> classLabel k = classLabel d \<longrightarrow>
             \<not> n_gt (calculateIoU (bbox d) (bbox k)) (Num iouThreshold)"
  proof (rule ccontr)
    assume out: "d \<notin> set (applyNMS detections iouThreshold)"
    with that(1) obtain k where k: "k \<in> set (applyNMS detections iouThreshold)"
        "classLabel k = classLabel d" "n_gt (calculateIoU (bbox d) (bbox k)) (Num iouThreshold)"
      using discarded by blast
    from k(1) out have "k \<noteq> d" by blast
    moreover have "k \<in> set detections"
      using k(1) applyNMS_subset by blast
    ultimately show False using that(2) k(2,3) by blast
  qed
  show ?thesis using discarded survives by (simp add: keepCandidate_iff)
qed

theorem applyNMS_suppresses_within_class_only_witness:
  "keepCandidate defaultIouThreshold [handDetection] thumbDetection
   \<and> thumbDetection \<in> set [thumbDetection, handDetection]
   \<and> handDetection \<noteq> thumbDetection
   \<and> classLabel handDetection \<noteq> classLabel thumbDetection
   \<and> thumbDetection \<in> set (applyNMS [thumbDetection, handDetection] defaultIouThreshold)
   \<and> handDetection \<in> set (applyNMS [thumbDetection, handDetection] defaultIouThreshold)
   \<and> saungB \<in> set [saungB, thumbDetection, saungA]
   \<and> saungB \<notin> set (applyNMS [saungB, thumbDetection, saungA] defaultIouThreshold)
   \<and> (\<exists>k \<in> set (applyNMS [saungB, thumbDetection, saungA] defaultIouThreshold).
         classLabel k = classLabel saungB
         \<and> n_gt (calculateIoU (bbox saungB) (bbox k)) (Num defaultIouThreshold))"
proof -
  have run1: "applyNMS [thumbDetection, handDetection] defaultIouThreshold
      = [handDetection, thumbDetection]"
    by (simp add: nms_eval)
  have run2: "applyNMS [saungB, thumbDetection, saungA] defaultIouThreshold
      = [thumbDetection, saungA]"
    by (simp add: nms_eval)
  have differ: "saungB \<noteq> thumbDetection" "saungB \<noteq> saungA" "handDetection \<noteq> thumbDetection"
    "classLabel handDetection \<noteq> classLabel thumbDetection"
    by (simp_all add: nms_eval)
  have k1: "keepCandidate defaultIouThreshold [handDetection] thumbDetection"
    using applyNMS_suppresses_within_class_only
      [of defaultIouThreshold "[handDetection]" thumbDetection]
    by (simp add: handDetection_def thumbDetection_def)
  have k2: "\<exists>k \<in> set (applyNMS [saungB, thumbDetection, saungA] defaultIouThreshold).
         classLabel k = classLabel saungB
         \<and> n_gt (calculateIoU (bbox saungB) (bbox k)) (Num defaultIouThreshold)"
    using applyNMS_suppresses_within_class_only
      [of defaultIouThreshold "[]" saungB saungB "[saungB, thumbDetection, saungA]"] differ
    unfolding run2 by simp
  have k3: "thumbDetection \<in> set (applyNMS [thumbDetection, handDetection] defaultIouThreshold)"
    using applyNMS_suppresses_within_class_only
      [of defaultIouThreshold "[]" thumbDetection thumbDetection "[thumbDetection, handDetection]"]
      differ(4)
    by simp
  show ?thesis using k1 k2 k3 differ unfolding run1 run2 by simp
qed

section \<open>Properties of the IoU\<close>








section \<open>Properties of the decoder\<close>

lemma clamp01_range:
  "clamp01 v = NaN \<or> (\<exists>r. clamp01 v = Num r \<and> 0 \<le> r \<and> r \<le> 1)"
  by (cases v) (auto simp: clamp01_def n_max_def n_min_def)

lemma clamp01_not_infinite: "clamp01 v \<noteq> PInf \<and> clamp01 v \<noteq> NInf"
  using clamp01_range [of v] by auto


lemma decodeAnchor_SomeD:
  assumes "decodeAnchor this outputData layout i = Some d"
  shows "\<exists>c x y w h.
      n_mul (objectness this outputData layout i) (fst (maxClass this outputData layout i)) = Num c
      \<and> confidenceThreshold < c
      \<and> normalizeBox this
           (readF32 outputData (attrIndex layout 0 i), readF32 outputData (attrIndex layout 1 i),
            readF32 outputData (attrIndex layout 2 i), readF32 outputData (attrIndex layout 3 i))
          = (Num x, Num y, Num w, Num h)
      \<and> 0 \<le> x \<and> 0 \<le> y \<and> x + w \<le> 1 \<and> y + h \<le> 1
      \<and> d = \<lparr>classLabel = classNameOf this (snd (maxClass this outputData layout i)),
               confidence = c, bbox = (x, y, w, h)\<rparr>"
  using assms
  by (auto simp: decodeAnchor_def Let_def n_gt_def n_ge_def
      split: if_splits prod.splits number.splits)

lemma readF32_cases: "readF32 a k = NaN \<or> (\<exists>r. readF32 a k = Num r)"
  by (simp add: readF32_def)

lemma scoreStep_Num:
  "\<exists>r. fst best = Num r \<Longrightarrow> \<exists>r. fst (scoreStep outputData layout start i best c) = Num r"
  using readF32_cases [of outputData "attrIndex layout (start + c) i"]
  by (auto simp: scoreStep_def Let_def n_gt_def)

lemma foldl_scoreStep_Num:
  "\<exists>r. fst best = Num r \<Longrightarrow>
     \<exists>r. fst (foldl (scoreStep outputData layout start i) best cs) = Num r"
proof (induction cs arbitrary: best)
  case Nil
  then show ?case by simp
next
  case (Cons c cs)
  from Cons.prems have "\<exists>r. fst (scoreStep outputData layout start i best c) = Num r"
    by (rule scoreStep_Num)
  then show ?case using Cons.IH by simp
qed

lemma maxClass_Num: "\<exists>r. fst (maxClass this outputData layout i) = Num r"
  unfolding maxClass_def by (rule foldl_scoreStep_Num) simp

lemma objectness_cases:
  "objectness this outputData layout i = NaN \<or> (\<exists>r. objectness this outputData layout i = Num r)"
  using readF32_cases by (simp add: objectness_def)

lemma num_of_ge: "n_ge x (Num 0) \<Longrightarrow> x \<noteq> PInf \<Longrightarrow> \<exists>r. x = Num r"
  by (cases x) (auto simp: n_ge_def)

lemma num_of_add_le: "n_le (n_add (Num a) w) (Num 1) \<Longrightarrow> w \<noteq> NInf \<Longrightarrow> \<exists>r. w = Num r"
  by (cases w) auto

lemma num_of_mul_gt:
  "n_gt (n_mul obj (Num m)) (Num t) \<Longrightarrow> obj = NaN \<or> (\<exists>r. obj = Num r) \<Longrightarrow>
     \<exists>c. n_mul obj (Num m) = Num c"
  by (auto simp: n_gt_def)

lemma decodeAnchor_guards:
  assumes nb: "normalizeBox this
           (readF32 outputData (attrIndex layout 0 i), readF32 outputData (attrIndex layout 1 i),
            readF32 outputData (attrIndex layout 2 i), readF32 outputData (attrIndex layout 3 i))
          = (x, y, width, height)"
    and conf: "n_gt (n_mul (objectness this outputData layout i)
                    (fst (maxClass this outputData layout i))) (Num confidenceThreshold)"
    and box: "n_ge x (Num 0)" "n_ge y (Num 0)"
      "n_le (n_add x width) (Num 1)" "n_le (n_add y height) (Num 1)"
  shows "\<exists>d. decodeAnchor this outputData layout i = Some d"
proof -
  obtain m where m: "fst (maxClass this outputData layout i) = Num m"
    using maxClass_Num by blast
  obtain k where mk: "maxClass this outputData layout i = (Num m, k)"
    using m by (cases "maxClass this outputData layout i") simp
  have inf: "x \<noteq> PInf" "y \<noteq> PInf" "width \<noteq> NInf" "height \<noteq> NInf"
    using nb clamp01_not_infinite by (auto simp: normalizeBox_def)
  obtain c where c: "n_mul (objectness this outputData layout i) (Num m) = Num c"
    using conf objectness_cases [of this outputData layout i] num_of_mul_gt
    unfolding m by blast
  obtain x' where x: "x = Num x'" using box(1) inf(1) num_of_ge by blast
  obtain y' where y: "y = Num y'" using box(2) inf(2) num_of_ge by blast
  obtain w' where w: "width = Num w'" using box(3) inf(3) num_of_add_le unfolding x by blast
  obtain h' where h: "height = Num h'" using box(4) inf(4) num_of_add_le unfolding y by blast
  show ?thesis
    using conf box nb unfolding m x y w h
    by (simp add: decodeAnchor_def mk c)
qed

lemma foldl_push:
  "foldl (\<lambda>acc i. case f i of Some d \<Rightarrow> acc @ [d] | None \<Rightarrow> acc) acc xs
     = acc @ List.map_filter f xs"
  by (induction xs arbitrary: acc) (auto simp: List.map_filter_simps split: option.splits)

lemma decodeAll_map_filter:
  "decodeAll this outputData layout
     = List.map_filter (decodeAnchor this outputData layout) [0..<numAnchors layout]"
  by (simp add: decodeAll_def foldl_push)

lemma set_decodeAll:
  "set (decodeAll this outputData layout)
     = {d. \<exists>i < numAnchors layout. decodeAnchor this outputData layout i = Some d}"
  by (auto simp: decodeAll_map_filter List.map_filter_def intro: rev_image_eqI)

lemma postprocessOutput_subset:
  "d \<in> set (postprocessOutput this output) \<Longrightarrow>
     \<exists>dim1 dim2 dim3 rest i. dims output = dim1 # dim2 # dim3 # rest
        \<and> i < numAnchors (resolveLayout dim2 dim3)
        \<and> decodeAnchor this (tdata output) (resolveLayout dim2 dim3) i = Some d"
proof -
  assume d: "d \<in> set (postprocessOutput this output)"
  have empty: "applyNMS [] defaultIouThreshold = []"
    by (simp add: applyNMS_def sortByConfidence_def groupByClass_def)
  from d obtain dim1 dim2 dim3 rest where ds: "dims output = dim1 # dim2 # dim3 # rest"
    by (auto simp: postprocessOutput_def empty split: list.splits)
  with d have "d \<in> set (decodeAll this (tdata output) (resolveLayout dim2 dim3))"
    using applyNMS_subset by (auto simp: postprocessOutput_def)
  with ds show ?thesis by (auto simp: set_decodeAll)
qed

lemma not_gt_mono: "\<not> n_gt s (Num m) \<Longrightarrow> m \<le> r \<Longrightarrow> \<not> n_gt s (Num r)"
  by (cases s) (auto simp: n_gt_def)

lemma not_gt_not_ge: "\<not> n_gt s (Num m) \<Longrightarrow> m < r \<Longrightarrow> \<not> n_ge s (Num r)"
  by (cases s) (auto simp: n_gt_def n_ge_def)

lemma scanInvariant_step:
  assumes inv: "scanInvariant sc n best"
    and fin: "sc n = NaN \<or> (\<exists>r. sc n = Num r)"
  shows "scanInvariant sc (Suc n) (if n_gt (sc n) (fst best) then (sc n, int n) else best)"
proof -
  obtain mx k where best: "best = (mx, k)" by (cases best)
  from inv obtain m where m: "mx = Num m"
    and le: "\<forall>c<n. \<not> n_gt (sc c) (Num m)"
    and idx: "(k = - 1 \<and> m = - 1)
              \<or> (0 \<le> k \<and> nat k < n \<and> sc (nat k) = Num m \<and> - 1 < m
                  \<and> (\<forall>c<nat k. \<not> n_ge (sc c) (Num m)))"
    unfolding scanInvariant_def best by auto
  from idx have m_ge: "- 1 \<le> m" by auto
  show ?thesis
  proof (cases "n_gt (sc n) (Num m)")
    case True
    with fin obtain r where r: "sc n = Num r" "m < r"
      by (auto simp: n_gt_def)
    have "\<forall>c<Suc n. \<not> n_gt (sc c) (Num r)"
      using le r not_gt_mono [of _ m r] by (auto simp: less_Suc_eq n_gt_def)
    moreover have "\<forall>c<n. \<not> n_ge (sc c) (Num r)"
      using le r not_gt_not_ge by blast
    ultimately show ?thesis
      using True r m_ge unfolding scanInvariant_def best m by auto
  next
    case False
    have "\<forall>c<Suc n. \<not> n_gt (sc c) (Num m)"
      using le False by (auto simp: less_Suc_eq)
    then show ?thesis
      using False idx unfolding scanInvariant_def best m by auto
  qed
qed

lemma scoreStep_classScore:
  "scoreStep outputData layout (classesStartOffset this layout) i best c
     = (if n_gt (classScore this outputData layout i c) (fst best)
        then (classScore this outputData layout i c, int c) else best)"
  by (simp add: scoreStep_def classScore_def Let_def)

lemma scanInvariant_foldl:
  "scanInvariant (classScore this outputData layout i) n
     (foldl (scoreStep outputData layout (classesStartOffset this layout) i)
        (Num (- 1), - 1) [0..<n])"
proof (induction n)
  case 0
  show ?case by (simp add: scanInvariant_def)
next
  case (Suc n)
  let ?step = "scoreStep outputData layout (classesStartOffset this layout) i"
  let ?prev = "foldl ?step (Num (- 1), - 1) [0..<n]"
  have fin: "classScore this outputData layout i n = NaN
      \<or> (\<exists>r. classScore this outputData layout i n = Num r)"
    unfolding classScore_def by (rule readF32_cases)
  have "foldl ?step (Num (- 1), - 1) [0..<Suc n] = ?step ?prev n" by simp
  also have "\<dots> = (if n_gt (classScore this outputData layout i n) (fst ?prev)
        then (classScore this outputData layout i n, int n) else ?prev)"
    by (rule scoreStep_classScore)
  finally show ?case
    using scanInvariant_step [OF Suc.IH fin] by simp
qed

lemma maxClass_invariant:
  "scanInvariant (classScore this outputData layout i) (length (classNames this))
     (maxClass this outputData layout i)"
  unfolding maxClass_def by (rule scanInvariant_foldl)

lemma upt_6: "[0..<6] = [0, 1, 2, 3, 4, 5]"
  by (simp add: upt_rec)

lemma newService_fields:
  "inputSize newService = 640"
  "classNames newService = [''left_hand'', ''left_thumb'', ''saung_instrument'',
                    ''right_forefinger'', ''right_hand'', ''right_thumb'']"
  "length (classNames newService) = 6"
  by (simp_all add: newService_def)

lemma layout_11: "resolveLayout 11 11 = \<lparr>numAnchors = 11, numVectors = 11, stride = 1, isChannelFirst = False\<rparr>"
  by (simp add: resolveLayout_def)

lemma index_11: "attrIndex (resolveLayout 11 11) a i = i * 11 + a"
  by (simp add: layout_11 attrIndex_def)

lemma objectness_11: "hasObjectness newService (resolveLayout 11 11)"
  by (simp add: layout_11 hasObjectness_def newService_fields)

lemma single_read0:
  "length anchor = 11 \<Longrightarrow> k < 11 \<Longrightarrow> readF32 (tdata (singleAnchorOutput anchor)) k = Num (anchor ! k)"
  by (simp add: readF32_def singleAnchorOutput_def nth_append)

lemma single_read_rest:
  "length anchor = 11 \<Longrightarrow> 11 \<le> k \<Longrightarrow> k < 121 \<Longrightarrow>
     readF32 (tdata (singleAnchorOutput anchor)) k = Num 0"
  by (simp add: readF32_def singleAnchorOutput_def nth_append)

lemma single_max_rest:
  "length anchor = 11 \<Longrightarrow> 1 \<le> i \<Longrightarrow> i < 11 \<Longrightarrow>
     maxClass newService (tdata (singleAnchorOutput anchor)) (resolveLayout 11 11) i = (Num 0, 0)"
  by (simp add: maxClass_def scoreStep_def classesStartOffset_def objectness_11 index_11
      single_read_rest n_gt_def newService_fields upt_6)

lemma single_decode_rest:
  "length anchor = 11 \<Longrightarrow> 1 \<le> i \<Longrightarrow> i < 11 \<Longrightarrow>
     decodeAnchor newService (tdata (singleAnchorOutput anchor)) (resolveLayout 11 11) i = None"
  by (simp add: decodeAnchor_def single_max_rest objectness_def objectness_11 index_11
      single_read_rest n_gt_def confidenceThreshold_def)

lemma map_filter_all_None: "\<forall>x \<in> set xs. f x = None \<Longrightarrow> List.map_filter f xs = []"
  by (induction xs) (auto simp: List.map_filter_simps)

lemma applyNMS_Nil: "applyNMS [] t = []"
  by (simp add: applyNMS_def sortByConfidence_def groupByClass_def)

lemma applyNMS_single: "applyNMS [d] t = [d]"
  by (simp add: applyNMS_def sortByConfidence_def groupByClass_def)

lemma single_postprocess:
  assumes len: "length anchor = 11"
  shows "postprocessOutput newService (singleAnchorOutput anchor)
    = (case decodeAnchor newService (tdata (singleAnchorOutput anchor)) (resolveLayout 11 11) 0 of
         Some d \<Rightarrow> [d] | None \<Rightarrow> [])"
proof -
  let ?f = "decodeAnchor newService (tdata (singleAnchorOutput anchor)) (resolveLayout 11 11)"
  have "[0..<numAnchors (resolveLayout 11 11)] = 0 # [1..<11]"
    by (simp add: layout_11 upt_rec)
  moreover have "List.map_filter ?f [1..<11] = []"
    by (rule map_filter_all_None) (simp add: single_decode_rest len)
  ultimately have "decodeAll newService (tdata (singleAnchorOutput anchor)) (resolveLayout 11 11)
      = (case ?f 0 of Some d \<Rightarrow> [d] | None \<Rightarrow> [])"
    by (simp add: decodeAll_map_filter List.map_filter_simps split: option.splits)
  moreover have "dims (singleAnchorOutput anchor) = [1, 11, 11]"
    by (simp add: singleAnchorOutput_def)
  ultimately show ?thesis
    by (simp add: postprocessOutput_def applyNMS_single applyNMS_Nil split: option.splits)
qed

lemma hand_reads:
  "readF32 (tdata (singleAnchorOutput handAnchor)) (attrIndex (resolveLayout 11 11) 0 0) = Num 320"
  "readF32 (tdata (singleAnchorOutput handAnchor)) (attrIndex (resolveLayout 11 11) 1 0) = Num 320"
  "readF32 (tdata (singleAnchorOutput handAnchor)) (attrIndex (resolveLayout 11 11) 2 0) = Num 64"
  "readF32 (tdata (singleAnchorOutput handAnchor)) (attrIndex (resolveLayout 11 11) 3 0) = Num 64"
  "readF32 (tdata (singleAnchorOutput handAnchor)) (attrIndex (resolveLayout 11 11) 4 0) = Num 1"
  by (simp_all add: index_11 readF32_def singleAnchorOutput_def handAnchor_def)

lemma hand_scores:
  "classScore newService (tdata (singleAnchorOutput handAnchor)) (resolveLayout 11 11) 0 0 = Num (1/10)"
  "classScore newService (tdata (singleAnchorOutput handAnchor)) (resolveLayout 11 11) 0 1 = Num (1/10)"
  "classScore newService (tdata (singleAnchorOutput handAnchor)) (resolveLayout 11 11) 0 2 = Num (1/10)"
  "classScore newService (tdata (singleAnchorOutput handAnchor)) (resolveLayout 11 11) 0 3 = Num (1/10)"
  "classScore newService (tdata (singleAnchorOutput handAnchor)) (resolveLayout 11 11) 0 4 = Num (9/10)"
  "classScore newService (tdata (singleAnchorOutput handAnchor)) (resolveLayout 11 11) 0 5 = Num (2/10)"
  by (simp_all add: classScore_def classesStartOffset_def objectness_11 index_11 readF32_def
      singleAnchorOutput_def handAnchor_def)

lemma hand_objectness:
  "objectness newService (tdata (singleAnchorOutput handAnchor)) (resolveLayout 11 11) 0 = Num 1"
  by (simp add: objectness_def objectness_11 hand_reads)

lemma hand_maxClass:
  "maxClass newService (tdata (singleAnchorOutput handAnchor)) (resolveLayout 11 11) 0
     = (Num (9/10), 4)"
  unfolding maxClass_def newService_fields(3) upt_6 foldl.simps scoreStep_classScore hand_scores
  by (simp add: n_gt_def)

lemma hand_box:
  "normalizeBox newService (Num 320, Num 320, Num 64, Num 64)
     = (Num (9/20), Num (9/20), Num (1/10), Num (1/10))"
  by (simp add: normalizeBox_def clamp01_def n_max_def n_min_def n_sub_def jsDivide_def
      newService_fields)

lemma hand_label: "classNameOf newService 4 = ''right_hand''"
  by (simp add: classNameOf_def newService_fields)

lemma hand_decode:
  "decodeAnchor newService (tdata (singleAnchorOutput handAnchor)) (resolveLayout 11 11) 0
    = Some \<lparr>classLabel = ''right_hand'', confidence = 9/10, bbox = (9/20, 9/20, 1/10, 1/10)\<rparr>"
  unfolding decodeAnchor_def hand_reads hand_objectness hand_maxClass Let_def prod.case
    hand_box hand_label
  by (simp add: n_gt_def n_ge_def confidenceThreshold_def)

lemma anchor_lengths: "length handAnchor = 11"
  by (simp add: handAnchor_def)

lemma hand_postprocess:
  "postprocessOutput newService (singleAnchorOutput handAnchor)
     = [\<lparr>classLabel = ''right_hand'', confidence = 9/10, bbox = (9/20, 9/20, 1/10, 1/10)\<rparr>]"
  unfolding single_postprocess [OF anchor_lengths] hand_decode by simp

text \<open>
  Claim C2: for the shape \<open>[1, 10, 8400]\<close> and a catalog of six labels the layout is
  channel-first with 8400 anchors and 10 vectors, there is no objectness, and attribute
  \<open>a\<close> of anchor \<open>i\<close> is read at \<open>a * 8400 + i\<close>; for every shape with \<open>d3 \<le> d2\<close>
  the layout is anchor-first with \<open>d2\<close> anchors and \<open>d3\<close> vectors, and the attribute
  is read at \<open>i * d3 + a\<close>.
\<close>

theorem layout_resolver:
  "(length (classNames this) = 6 \<longrightarrow>
      isChannelFirst (resolveLayout 10 8400)
      \<and> numAnchors (resolveLayout 10 8400) = 8400
      \<and> numVectors (resolveLayout 10 8400) = 10
      \<and> \<not> hasObjectness this (resolveLayout 10 8400)
      \<and> attrIndex (resolveLayout 10 8400) a i = a * 8400 + i)
   \<and> (d3 \<le> d2 \<longrightarrow>
        \<not> isChannelFirst (resolveLayout d2 d3)
        \<and> numAnchors (resolveLayout d2 d3) = d2
        \<and> numVectors (resolveLayout d2 d3) = d3
        \<and> attrIndex (resolveLayout d2 d3) a i = i * d3 + a)"
  by (simp add: resolveLayout_def hasObjectness_def attrIndex_def)

theorem layout_resolver_witness:
  "length (classNames newService) = 6
   \<and> isChannelFirst (resolveLayout 10 8400)
   \<and> numAnchors (resolveLayout 10 8400) = 8400
   \<and> numVectors (resolveLayout 10 8400) = 10
   \<and> \<not> hasObjectness newService (resolveLayout 10 8400)
   \<and> attrIndex (resolveLayout 10 8400) 4 7 = 4 * 8400 + 7
   \<and> (10::nat) \<le> 8400
   \<and> \<not> isChannelFirst (resolveLayout 8400 10)
   \<and> numAnchors (resolveLayout 8400 10) = 8400
   \<and> numVectors (resolveLayout 8400 10) = 10
   \<and> attrIndex (resolveLayout 8400 10) 4 7 = 7 * 10 + 4"
  using layout_resolver [of newService 4 7 10 8400]
  by (simp add: newService_fields)

text \<open>
  Claim C3. With \<open>5 + classCount\<close> vectors the objectness is read at attribute 4 and
  the class scores start at 5; with \<open>4 + classCount\<close> vectors the objectness is \<open>1\<close>
  and they start at 4. The class scores of a detector are probabilities: for a
  non-empty catalog and an anchor whose class scores are all non-negative numbers,
  \<open>maxClassScore\<close> is the largest of the \<open>classCount\<close> class scores and \<open>classIndex\<close>
  is the first class that has it. An anchor is emitted only with
  \<open>confidence = objectness * maxClassScore\<close> above \<open>0.25\<close>, labelled by \<open>classIndex\<close>,
  and every detection of the final list has a confidence above \<open>0.25\<close>.
\<close>

theorem decodeAnchor_confidence:
  assumes "classNames this \<noteq> []"
    and "\<forall>c < length (classNames this).
           n_ge (classScore this outputData layout i c) (Num 0)"
  shows
  "(numVectors layout = 5 + length (classNames this) \<longrightarrow>
       objectness this outputData layout i = readF32 outputData (attrIndex layout 4 i)
       \<and> classesStartOffset this layout = 5)
   \<and> (numVectors layout = 4 + length (classNames this) \<longrightarrow>
       objectness this outputData layout i = Num 1 \<and> classesStartOffset this layout = 4)
   \<and> (case maxClass this outputData layout i of (maxClassScore, classIndex) \<Rightarrow>
        0 \<le> classIndex \<and> nat classIndex < length (classNames this)
        \<and> classScore this outputData layout i (nat classIndex) = maxClassScore
        \<and> (\<forall>c < length (classNames this).
              n_le (classScore this outputData layout i c) maxClassScore)
        \<and> (\<forall>c < nat classIndex.
              n_lt (classScore this outputData layout i c) maxClassScore)
        \<and> (decodeAnchor this outputData layout i = Some d \<longrightarrow>
             Num (confidence d) = n_mul (objectness this outputData layout i) maxClassScore
             \<and> confidenceThreshold < confidence d
             \<and> classLabel d = classNameOf this classIndex)
        \<and> (\<not> n_gt (n_mul (objectness this outputData layout i) maxClassScore)
                 (Num confidenceThreshold) \<longrightarrow>
             decodeAnchor this outputData layout i = None))
   \<and> (e \<in> set (postprocessOutput this output) \<longrightarrow> confidenceThreshold < confidence e)"
proof -
  let ?sc = "classScore this outputData layout i"
  let ?n = "length (classNames this)"
  obtain mx k where mk: "maxClass this outputData layout i = (mx, k)"
    by (cases "maxClass this outputData layout i")
  from maxClass_invariant [of this outputData layout i] obtain m where m: "mx = Num m"
    and le: "\<forall>c<?n. \<not> n_gt (?sc c) (Num m)"
    and idx: "(k = - 1 \<and> m = - 1)
              \<or> (0 \<le> k \<and> nat k < ?n \<and> ?sc (nat k) = Num m \<and> - 1 < m
                  \<and> (\<forall>c<nat k. \<not> n_ge (?sc c) (Num m)))"
    unfolding scanInvariant_def mk by auto
  have score: "\<exists>r. ?sc c = Num r \<and> 0 \<le> r" if "c < ?n" for c
  proof -
    from assms(2) that have ge: "n_ge (?sc c) (Num 0)" by simp
    from readF32_cases [of outputData "attrIndex layout (classesStartOffset this layout + c) i"]
    show ?thesis using ge by (auto simp: classScore_def n_ge_def)
  qed
  from assms(1) have "0 < ?n" by simp
  from score [OF this] obtain r0 where r0: "?sc 0 = Num r0" "0 \<le> r0" by blast
  from le \<open>0 < ?n\<close> r0 have "r0 \<le> m" by (auto simp: n_gt_def)
  with r0 have "- 1 < m" by simp
  with idx have found: "0 \<le> k" "nat k < ?n" "?sc (nat k) = mx"
    and first: "\<forall>c<nat k. \<not> n_ge (?sc c) mx"
    unfolding m by auto
  have all_le: "n_le (?sc c) mx" if "c < ?n" for c
    using score [OF that] le that unfolding m by (auto simp: n_gt_def)
  have before: "n_lt (?sc c) mx" if "c < nat k" for c
  proof -
    from that found(2) have "c < ?n" by simp
    from score [OF this] first that show ?thesis unfolding m by (auto simp: n_ge_def)
  qed
  have emitted: "Num (confidence d) = n_mul (objectness this outputData layout i) mx
        \<and> confidenceThreshold < confidence d \<and> classLabel d = classNameOf this k"
    if "decodeAnchor this outputData layout i = Some d"
    using decodeAnchor_SomeD [OF that] by (auto simp: mk)
  have dropped: "decodeAnchor this outputData layout i = None"
    if "\<not> n_gt (n_mul (objectness this outputData layout i) mx) (Num confidenceThreshold)"
    using that by (simp add: decodeAnchor_def mk)
  have final: "confidenceThreshold < confidence e" if "e \<in> set (postprocessOutput this output)"
    using postprocessOutput_subset [OF that] decodeAnchor_SomeD by fastforce
  have obj: "numVectors layout = 5 + ?n \<longrightarrow>
       objectness this outputData layout i = readF32 outputData (attrIndex layout 4 i)
       \<and> classesStartOffset this layout = 5"
    "numVectors layout = 4 + ?n \<longrightarrow>
       objectness this outputData layout i = Num 1 \<and> classesStartOffset this layout = 4"
    by (simp_all add: objectness_def classesStartOffset_def hasObjectness_def)
  show ?thesis
    unfolding mk prod.case using obj found all_le before emitted dropped final
    by blast
qed

lemma layout_v8: "numVectors (resolveLayout 10 10) = 4 + length (classNames newService)"
  by (simp add: resolveLayout_def newService_fields)

lemma v8_scores:
  "classScore newService (tdata (singleAnchorOutput handAnchor)) (resolveLayout 10 10) 0 0 = Num 1"
  "classScore newService (tdata (singleAnchorOutput handAnchor)) (resolveLayout 10 10) 0 1 = Num (1/10)"
  "classScore newService (tdata (singleAnchorOutput handAnchor)) (resolveLayout 10 10) 0 2 = Num (1/10)"
  "classScore newService (tdata (singleAnchorOutput handAnchor)) (resolveLayout 10 10) 0 3 = Num (1/10)"
  "classScore newService (tdata (singleAnchorOutput handAnchor)) (resolveLayout 10 10) 0 4 = Num (1/10)"
  "classScore newService (tdata (singleAnchorOutput handAnchor)) (resolveLayout 10 10) 0 5 = Num (9/10)"
  by (simp_all add: classScore_def classesStartOffset_def hasObjectness_def resolveLayout_def
      attrIndex_def newService_fields readF32_def singleAnchorOutput_def handAnchor_def)

text \<open>
  The claim at an example output: a hand anchor with objectness, whose six class
  scores are \<open>0.1\<close>, \<open>0.1\<close>, \<open>0.1\<close>, \<open>0.1\<close>, \<open>0.9\<close> and \<open>0.2\<close>; and the same numbers
  read with ten values per anchor, the layout that has no objectness.
\<close>

theorem decodeAnchor_confidence_witness:
  "classNames newService \<noteq> []
   \<and> n_ge (classScore newService (tdata (singleAnchorOutput handAnchor)) (resolveLayout 11 11) 0 0) (Num 0)
   \<and> n_ge (classScore newService (tdata (singleAnchorOutput handAnchor)) (resolveLayout 11 11) 0 1) (Num 0)
   \<and> n_ge (classScore newService (tdata (singleAnchorOutput handAnchor)) (resolveLayout 11 11) 0 2) (Num 0)
   \<and> n_ge (classScore newService (tdata (singleAnchorOutput handAnchor)) (resolveLayout 11 11) 0 3) (Num 0)
   \<and> n_ge (classScore newService (tdata (singleAnchorOutput handAnchor)) (resolveLayout 11 11) 0 4) (Num 0)
   \<and> n_ge (classScore newService (tdata (singleAnchorOutput handAnchor)) (resolveLayout 11 11) 0 5) (Num 0)
   \<and> numVectors (resolveLayout 11 11) = 5 + length (classNames newService)
   \<and> objectness newService (tdata (singleAnchorOutput handAnchor)) (resolveLayout 11 11) 0
       = readF32 (tdata (singleAnchorOutput handAnchor)) (attrIndex (resolveLayout 11 11) 4 0)
   \<and> classesStartOffset newService (resolveLayout 11 11) = 5
   \<and> n_ge (classScore newService (tdata (singleAnchorOutput handAnchor)) (resolveLayout 10 10) 0 0) (Num 0)
   \<and> n_ge (classScore newService (tdata (singleAnchorOutput handAnchor)) (resolveLayout 10 10) 0 1) (Num 0)
   \<and> n_ge (classScore newService (tdata (singleAnchorOutput handAnchor)) (resolveLayout 10 10) 0 2) (Num 0)
   \<and> n_ge (classScore newService (tdata (singleAnchorOutput handAnchor)) (resolveLayout 10 10) 0 3) (Num 0)
   \<and> n_ge (classScore newService (tdata (singleAnchorOutput handAnchor)) (resolveLayout 10 10) 0 4) (Num 0)
   \<and> n_ge (classScore newService (tdata (singleAnchorOutput handAnchor)) (resolveLayout 10 10) 0 5) (Num 0)
   \<and> numVectors (resolveLayout 10 10) = 4 + length (classNames newService)
   \<and> objectness newService (tdata (singleAnchorOutput handAnchor)) (resolveLayout 10 10) 0 = Num 1
   \<and> classesStartOffset newService (resolveLayout 10 10) = 4
   \<and> maxClass newService (tdata (singleAnchorOutput handAnchor)) (resolveLayout 11 11) 0
       = (Num (9/10), 4)
   \<and> classScore newService (tdata (singleAnchorOutput handAnchor)) (resolveLayout 11 11) 0 4
       = Num (9/10)
   \<and> n_le (classScore newService (tdata (singleAnchorOutput handAnchor)) (resolveLayout 11 11) 0 5)
        (Num (9/10))
   \<and> n_lt (classScore newService (tdata (singleAnchorOutput handAnchor)) (resolveLayout 11 11) 0 3)
        (Num (9/10))
   \<and> decodeAnchor newService (tdata (singleAnchorOutput handAnchor)) (resolveLayout 11 11) 0
       = Some handResult
   \<and> Num (confidence handResult) = n_mul (Num 1) (Num (9/10))
   \<and> confidenceThreshold < confidence handResult
   \<and> classLabel handResult = classNameOf newService 4
   \<and> handResult \<in> set (postprocessOutput newService (singleAnchorOutput handAnchor))"
proof -
  have names: "classNames newService \<noteq> []"
    using newService_fields(3) by auto
  have scores: "\<forall>c < length (classNames newService).
      n_ge (classScore newService (tdata (singleAnchorOutput handAnchor)) (resolveLayout 11 11) 0 c)
        (Num 0)"
  proof (intro allI impI)
    fix c assume "c < length (classNames newService)"
    then have "c \<in> set [0..<6]" by (simp add: newService_fields)
    then have "c = 0 \<or> c = 1 \<or> c = 2 \<or> c = 3 \<or> c = 4 \<or> c = 5"
      unfolding upt_6 by simp
    then show "n_ge (classScore newService (tdata (singleAnchorOutput handAnchor))
                 (resolveLayout 11 11) 0 c) (Num 0)"
      using hand_scores by (auto simp: n_ge_def)
  qed
  note hand = decodeAnchor_confidence
    [OF names scores, of handResult handResult "singleAnchorOutput handAnchor"]
  have scores8: "\<forall>c < length (classNames newService).
      n_ge (classScore newService (tdata (singleAnchorOutput handAnchor)) (resolveLayout 10 10) 0 c)
        (Num 0)"
  proof (intro allI impI)
    fix c assume "c < length (classNames newService)"
    then have "c \<in> set [0..<6]" by (simp add: newService_fields)
    then have "c = 0 \<or> c = 1 \<or> c = 2 \<or> c = 3 \<or> c = 4 \<or> c = 5"
      unfolding upt_6 by simp
    then show "n_ge (classScore newService (tdata (singleAnchorOutput handAnchor))
                 (resolveLayout 10 10) 0 c) (Num 0)"
      using v8_scores by (auto simp: n_ge_def)
  qed
  note v8 = decodeAnchor_confidence
    [OF names scores8, of handResult handResult "singleAnchorOutput handAnchor"]
  have c8: "objectness newService (tdata (singleAnchorOutput handAnchor)) (resolveLayout 10 10) 0 = Num 1
     \<and> classesStartOffset newService (resolveLayout 10 10) = 4"
    using v8 layout_v8 by blast
  have ge8: "n_ge (classScore newService (tdata (singleAnchorOutput handAnchor)) (resolveLayout 10 10) 0 0) (Num 0)"
    "n_ge (classScore newService (tdata (singleAnchorOutput handAnchor)) (resolveLayout 10 10) 0 1) (Num 0)"
    "n_ge (classScore newService (tdata (singleAnchorOutput handAnchor)) (resolveLayout 10 10) 0 2) (Num 0)"
    "n_ge (classScore newService (tdata (singleAnchorOutput handAnchor)) (resolveLayout 10 10) 0 3) (Num 0)"
    "n_ge (classScore newService (tdata (singleAnchorOutput handAnchor)) (resolveLayout 10 10) 0 4) (Num 0)"
    "n_ge (classScore newService (tdata (singleAnchorOutput handAnchor)) (resolveLayout 10 10) 0 5) (Num 0)"
    using scores8 by (simp_all add: newService_fields)
  have l11: "numVectors (resolveLayout 11 11) = 5 + length (classNames newService)"
    by (simp add: layout_11 newService_fields)
  have dec: "decodeAnchor newService (tdata (singleAnchorOutput handAnchor)) (resolveLayout 11 11) 0
       = Some handResult"
    by (simp add: hand_decode handResult_def)
  have post: "handResult \<in> set (postprocessOutput newService (singleAnchorOutput handAnchor))"
    by (simp add: hand_postprocess handResult_def)
  have c1: "objectness newService (tdata (singleAnchorOutput handAnchor)) (resolveLayout 11 11) 0
       = readF32 (tdata (singleAnchorOutput handAnchor)) (attrIndex (resolveLayout 11 11) 4 0)
     \<and> classesStartOffset newService (resolveLayout 11 11) = 5"
    using hand l11 by blast
  have c2: "n_le (classScore newService (tdata (singleAnchorOutput handAnchor)) (resolveLayout 11 11) 0 5)
        (Num (9/10))
     \<and> n_lt (classScore newService (tdata (singleAnchorOutput handAnchor)) (resolveLayout 11 11) 0 3)
        (Num (9/10))"
    using hand unfolding hand_maxClass prod.case by (simp add: newService_fields)
  have c3: "Num (confidence handResult) = n_mul (Num 1) (Num (9/10))
     \<and> confidenceThreshold < confidence handResult
     \<and> classLabel handResult = classNameOf newService 4"
    using hand dec unfolding hand_maxClass hand_objectness prod.case by blast
  have ge: "n_ge (classScore newService (tdata (singleAnchorOutput handAnchor)) (resolveLayout 11 11) 0 0) (Num 0)"
    "n_ge (classScore newService (tdata (singleAnchorOutput handAnchor)) (resolveLayout 11 11) 0 1) (Num 0)"
    "n_ge (classScore newService (tdata (singleAnchorOutput handAnchor)) (resolveLayout 11 11) 0 2) (Num 0)"
    "n_ge (classScore newService (tdata (singleAnchorOutput handAnchor)) (resolveLayout 11 11) 0 3) (Num 0)"
    "n_ge (classScore newService (tdata (singleAnchorOutput handAnchor)) (resolveLayout 11 11) 0 4) (Num 0)"
    "n_ge (classScore newService (tdata (singleAnchorOutput handAnchor)) (resolveLayout 11 11) 0 5) (Num 0)"
    using scores by (simp_all add: newService_fields)
  show ?thesis
    using names ge c1 c2 c3 l11 dec post ge8 c8 layout_v8
    by (simp add: hand_maxClass hand_scores)
qed



section \<open>Properties of preprocessing and of the detect operation\<close>

lemma length_getImageData: "length (getImageData canvas) = 4 * length canvas"
  by (induction canvas) (auto simp: getImageData_def)

lemma getImageData_nth:
  "p < length canvas \<Longrightarrow>
     (getImageData canvas ! (4 * p), getImageData canvas ! (4 * p + 1),
      getImageData canvas ! (4 * p + 2), getImageData canvas ! (4 * p + 3)) = canvas ! p"
proof (induction canvas arbitrary: p)
  case Nil
  then show ?case by simp
next
  case (Cons px canvas)
  obtain r g b a where px: "px = (r, g, b, a)" by (cases px)
  have unfold: "getImageData (px # canvas) = r # g # b # a # getImageData canvas"
    by (simp add: getImageData_def px)
  show ?case
  proof (cases p)
    case 0
    then show ?thesis by (simp add: getImageData_def px)
  next
    case (Suc q)
    have idx: "4 * Suc q = Suc (Suc (Suc (Suc (4 * q))))" by simp
    from Cons.prems Suc have "q < length canvas" by simp
    from Cons.IH [OF this] show ?thesis
      unfolding Suc unfold idx by (simp add: add.commute)
  qed
qed

lemma fillInput_invariant:
  assumes "n = s * s"
    and "length resizedData = 4 * n" and "length input = 3 * n"
    and "k \<le> n"
    and "\<forall>p<k. input ! p = plane resizedData 0 p
            \<and> input ! (p + n) = plane resizedData 1 p
            \<and> input ! (p + 2 * n) = plane resizedData 2 p"
  shows "length (fillInput s resizedData (4 * k) input) = 3 * n
     \<and> (\<forall>p<n. fillInput s resizedData (4 * k) input ! p = plane resizedData 0 p
            \<and> fillInput s resizedData (4 * k) input ! (p + n) = plane resizedData 1 p
            \<and> fillInput s resizedData (4 * k) input ! (p + 2 * n) = plane resizedData 2 p)"
  using assms(2-)
proof (induction "n - k" arbitrary: k input)
  case 0
  then have k: "k = n" by simp
  have "fillInput s resizedData (4 * k) input = input"
    using "0.prems"(1) by (subst fillInput.simps) (simp add: k)
  with "0.prems" k show ?case by simp
next
  case (Suc m)
  then have k: "k < n" by simp
  let ?input' = "input
                 [k := plane resizedData 0 k,
                  k + n := plane resizedData 1 k,
                  k + 2 * n := plane resizedData 2 k]"
  have "2 * s * s = 2 * n" using assms(1) by simp
  then have step: "fillInput s resizedData (4 * k) input = fillInput s resizedData (4 * Suc k) ?input'"
    using Suc.prems(1) k assms(1)
    by (subst fillInput.simps) (simp add: plane_def Let_def add.commute mult.assoc)
  have m: "m = n - Suc k" using Suc.hyps(2) by simp
  have len': "length ?input' = 3 * n" using Suc.prems(2) by simp
  have k': "Suc k \<le> n" using k by simp
  have done': "\<forall>p<Suc k. ?input' ! p = plane resizedData 0 p
            \<and> ?input' ! (p + n) = plane resizedData 1 p
            \<and> ?input' ! (p + 2 * n) = plane resizedData 2 p"
    using Suc.prems(2,4) k by (auto simp: less_Suc_eq nth_list_update)
  from Suc.hyps(1) [OF m Suc.prems(1) len' k' done'] show ?case
    unfolding step .
qed

lemma plane_paint:
  assumes "p < length canvas"
  shows "plane (getImageData canvas) 0 p = channelValue (fst (canvas ! p))
     \<and> plane (getImageData canvas) 1 p = channelValue (fst (snd (canvas ! p)))
     \<and> plane (getImageData canvas) 2 p = channelValue (fst (snd (snd (canvas ! p))))"
proof -
  obtain r g b a where px: "canvas ! p = (r, g, b, a)" by (cases "canvas ! p")
  from getImageData_nth [OF assms] px
  have "getImageData canvas ! (4 * p) = r" "getImageData canvas ! (4 * p + 1) = g"
    "getImageData canvas ! (4 * p + 2) = b" by simp_all
  moreover have "4 * p + 2 < length (getImageData canvas)"
    using assms by (simp add: length_getImageData)
  ultimately show ?thesis
    by (simp add: plane_def readU8_def px channelValue_def)
qed

lemma byte_fraction: "0 \<le> real (unat (b :: byte)) / 255 \<and> real (unat b) / 255 \<le> 1"
proof -
  have "unat b < 2 ^ LENGTH(8)" by (rule unsigned_less)
  then have "unat b \<le> 255" by simp
  then have "real (unat b) \<le> real 255" by (rule of_nat_mono)
  moreover have "0 \<le> real (unat b)" by (rule of_nat_0_le_iff)
  ultimately show ?thesis by simp
qed

lemma channelValue_quotient:
  "channelValue b = toFloat32 (roundDouble (real (unat b) / 255))"
  by (simp add: channelValue_def d_div_def jsDivide_def)

lemma channelValue_range:
  "\<exists>v. channelValue b = Num v \<and> 0 \<le> v \<and> v \<le> 1 \<and> \<bar>v - real (unat b) / 255\<bar> \<le> 1 / 2 ^ 23"
proof -
  let ?q = "real (unat b) / 255"
  from byte_fraction [of b] have q: "0 \<le> ?q" "?q \<le> 1" by simp_all
  from roundDouble_unit [OF q] obtain r where r: "roundDouble ?q = Num r" "0 \<le> r" "r \<le> 1"
    and er: "\<bar>r - ?q\<bar> \<le> 1 / 2 ^ 53" by blast
  from roundFloat32_unit [OF r(2,3)] obtain v where v: "roundFloat32 r = Num v" "0 \<le> v" "v \<le> 1"
    and ev: "\<bar>v - r\<bar> \<le> 1 / 2 ^ 24" by blast
  have "\<bar>v - ?q\<bar> \<le> \<bar>v - r\<bar> + \<bar>r - ?q\<bar>" by linarith
  also have "\<dots> \<le> 1 / 2 ^ 24 + 1 / 2 ^ 53" using ev er by linarith
  also have "\<dots> \<le> 1 / 2 ^ 23" by simp
  finally have "\<bar>v - ?q\<bar> \<le> 1 / 2 ^ 23" .
  moreover have "channelValue b = Num v"
    unfolding channelValue_quotient r(1) by (simp add: v(1))
  ultimately show ?thesis using v(2,3) by blast
qed

lemma channelValue_200: "channelValue 200 = Num (13158601 / 16777216)"
proof -
  have d: "roundDouble (200 / 255) = Num (of_int 7064470003718425 / 2 ^ 53)"
    by (rule roundDouble_value) simp_all
  have f: "roundFloat32 (of_int 7064470003718425 / 2 ^ 53) = Num (of_int 13158601 / 2 ^ 24)"
    by (rule roundFloat32_value) simp_all
  have "channelValue 200 = toFloat32 (roundDouble (200 / 255))"
    unfolding channelValue_quotient by simp
  also have "\<dots> = Num (of_int 13158601 / 2 ^ 24)"
    unfolding d toFloat32.simps f ..
  finally show ?thesis by simp
qed

lemma channelValue_gray: "channelValue 128 = Num (8421505 / 16777216)"
proof -
  have d: "roundDouble (128 / 255) = Num (of_int 4521260802379792 / 2 ^ 53)"
    by (rule roundDouble_value) simp_all
  have f: "roundFloat32 (of_int 4521260802379792 / 2 ^ 53) = Num (of_int 8421505 / 2 ^ 24)"
    by (rule roundFloat32_value) simp_all
  have "channelValue 128 = toFloat32 (roundDouble (128 / 255))"
    unfolding channelValue_quotient by simp
  also have "\<dots> = Num (of_int 8421505 / 2 ^ 24)"
    unfolding d toFloat32.simps f ..
  finally show ?thesis by simp
qed

lemma length_tempCanvasOf:
  "length (tempCanvasOf this browser canvas) = inputSize this * inputSize this"
  by (simp add: tempCanvasOf_def paint_def fillRect_def)

lemma tempCanvasOf_unpainted:
  "p < inputSize this * inputSize this \<Longrightarrow>
   drawImage browser (letterbox (inputSize this) (canvasWidth canvas) (canvasHeight canvas)) p = None
   \<Longrightarrow> tempCanvasOf this browser canvas ! p = grayPixel"
  by (simp add: tempCanvasOf_def paint_def fillRect_def)

lemma preprocessImage_tensor:
  assumes ctx: "canvasContext browser" "tempContext browser"
    and n_def: "n = inputSize this * inputSize this"
  shows "\<exists>t. preprocessImage this browser canvas = Inr t
     \<and> dims t = [1, 3, inputSize this, inputSize this]
     \<and> length (tdata t) = 3 * n
     \<and> (\<forall>p<n.
          tdata t ! p = channelValue (fst (tempCanvasOf this browser canvas ! p))
          \<and> tdata t ! (p + n) = channelValue (fst (snd (tempCanvasOf this browser canvas ! p)))
          \<and> tdata t ! (p + 2 * n)
              = channelValue (fst (snd (snd (tempCanvasOf this browser canvas ! p)))))"
proof -
  let ?s = "inputSize this"
  let ?canvas = "tempCanvasOf this browser canvas"
  let ?data = "getImageData ?canvas"
  let ?input = "fillInput ?s ?data 0 (replicate (3 * ?s * ?s) (Num 0))"
  have pre: "preprocessImage this browser canvas = Inr \<lparr>tdata = ?input, dims = [1, 3, ?s, ?s]\<rparr>"
    using ctx by (simp add: preprocessImage_def tempCanvasOf_def Let_def)
  have len: "length ?data = 4 * n"
    by (simp add: length_getImageData length_tempCanvasOf n_def)
  have inv: "length (fillInput ?s ?data (4 * 0) (replicate (3 * ?s * ?s) (Num 0))) = 3 * n
     \<and> (\<forall>p<n. fillInput ?s ?data (4 * 0) (replicate (3 * ?s * ?s) (Num 0)) ! p = plane ?data 0 p
            \<and> fillInput ?s ?data (4 * 0) (replicate (3 * ?s * ?s) (Num 0)) ! (p + n) = plane ?data 1 p
            \<and> fillInput ?s ?data (4 * 0) (replicate (3 * ?s * ?s) (Num 0)) ! (p + 2 * n) = plane ?data 2 p)"
    by (rule fillInput_invariant [where n = n and s = "?s"])
       (simp_all add: n_def len [unfolded n_def] mult.assoc)
  have planes: "\<forall>p<n. plane ?data 0 p = channelValue (fst (?canvas ! p))
     \<and> plane ?data 1 p = channelValue (fst (snd (?canvas ! p)))
     \<and> plane ?data 2 p = channelValue (fst (snd (snd (?canvas ! p))))"
    using plane_paint [of _ ?canvas] by (simp add: length_tempCanvasOf n_def)
  show ?thesis
    unfolding pre using inv planes by simp
qed

lemma example_letterbox: "letterbox 640 640 480 = (Num 0, Num 80, Num 640, Num 480)"
  by (simp add: letterbox_def jsDivide_def n_gt_def n_sub_def Let_def)

lemma example_unpainted: "drawImage exampleBrowser (letterbox 640 640 480) 0 = None"
  by (simp add: exampleBrowser_def example_letterbox solidDrawImage_def)

lemma example_painted:
  "drawImage exampleBrowser (letterbox 640 640 480) 51200 = Some (200, 100, 50, 255)"
  by (simp add: exampleBrowser_def example_letterbox solidDrawImage_def)

text \<open>
  Claim C8, amended in the shape and in the stored values. Where both canvas contexts
  exist, \<open>preprocessImage\<close> returns a tensor of shape \<open>[1, 3, S, S]\<close> with \<open>3 * S * S\<close>
  elements, each a number in \<open>[0, 1]\<close>; the values for the red, green and blue bytes
  of pixel \<open>p\<close> of the temporary canvas stand at \<open>p\<close>, \<open>p + S * S\<close> and
  \<open>p + 2 * S * S\<close>; the value for a byte \<open>b\<close> is the double \<open>b / 255.0\<close> rounded to
  single precision, which is within \<open>2^-23\<close> of \<open>b/255\<close>; and wherever \<open>drawImage\<close>
  painted nothing the three values are \<open>8421505 / 2^24\<close>, the single-precision number
  nearest to \<open>128/255\<close>.
\<close>

theorem preprocessImage_letterbox_tensor:
  "(canvasContext browser \<longrightarrow> tempContext browser \<longrightarrow>
     (\<exists>t. preprocessImage this browser canvas = Inr t
        \<and> dims t = [1, 3, inputSize this, inputSize this]
        \<and> length (tdata t) = 3 * inputSize this * inputSize this
        \<and> (\<forall>k < length (tdata t). \<exists>r. tdata t ! k = Num r \<and> 0 \<le> r \<and> r \<le> 1)
        \<and> (\<forall>p. p < inputSize this * inputSize this \<longrightarrow>
              (case tempCanvasOf this browser canvas ! p of (r, g, b, a) \<Rightarrow>
                 tdata t ! p = toFloat32 (d_div (Num (real (unat r))) (Num 255))
                 \<and> tdata t ! (p + inputSize this * inputSize this)
                     = toFloat32 (d_div (Num (real (unat g))) (Num 255))
                 \<and> tdata t ! (p + 2 * (inputSize this * inputSize this))
                     = toFloat32 (d_div (Num (real (unat b))) (Num 255))))
        \<and> (\<forall>p. p < inputSize this * inputSize this \<longrightarrow>
              drawImage browser
                (letterbox (inputSize this) (canvasWidth canvas) (canvasHeight canvas)) p = None \<longrightarrow>
              tdata t ! p = Num (8421505 / 2 ^ 24)
              \<and> tdata t ! (p + inputSize this * inputSize this) = Num (8421505 / 2 ^ 24)
              \<and> tdata t ! (p + 2 * (inputSize this * inputSize this)) = Num (8421505 / 2 ^ 24))))
   \<and> (\<exists>v. toFloat32 (d_div (Num (real (unat (c :: byte)))) (Num 255)) = Num v
          \<and> \<bar>v - real (unat c) / 255\<bar> \<le> 1 / 2 ^ 23)
   \<and> \<bar>8421505 / 2 ^ 24 - 128 / (255 :: real)\<bar> \<le> 1 / 2 ^ 25"
proof (intro conjI impI)
  assume ctx: "canvasContext browser" "tempContext browser"
  let ?n = "inputSize this * inputSize this"
  let ?canvas = "tempCanvasOf this browser canvas"
  from preprocessImage_tensor [OF ctx refl, of this canvas] obtain t where
    t: "preprocessImage this browser canvas = Inr t"
    and d: "dims t = [1, 3, inputSize this, inputSize this]"
    and len: "length (tdata t) = 3 * ?n"
    and planes: "\<forall>p<?n.
          tdata t ! p = channelValue (fst (?canvas ! p))
          \<and> tdata t ! (p + ?n) = channelValue (fst (snd (?canvas ! p)))
          \<and> tdata t ! (p + 2 * ?n) = channelValue (fst (snd (snd (?canvas ! p))))"
    by blast
  have unit: "\<exists>r. channelValue b = Num r \<and> 0 \<le> r \<and> r \<le> 1" for b
    using channelValue_range [of b] by blast
  have range: "\<exists>r. tdata t ! k = Num r \<and> 0 \<le> r \<and> r \<le> 1"
    if k: "k < length (tdata t)" for k
  proof -
    consider "k < ?n" | "?n \<le> k" "k < 2 * ?n" | "2 * ?n \<le> k" "k < 3 * ?n"
      using k len by linarith
    then show ?thesis
    proof cases
      case 1
      with planes show ?thesis using unit by metis
    next
      case 2
      then have "k - ?n < ?n" "k = (k - ?n) + ?n" by simp_all
      with planes show ?thesis using unit by metis
    next
      case 3
      then have "k - 2 * ?n < ?n" "k = (k - 2 * ?n) + 2 * ?n" by simp_all
      with planes show ?thesis using unit by metis
    qed
  qed
  have planar: "case ?canvas ! p of (r, g, b, a) \<Rightarrow>
                 tdata t ! p = toFloat32 (d_div (Num (real (unat r))) (Num 255))
                 \<and> tdata t ! (p + ?n) = toFloat32 (d_div (Num (real (unat g))) (Num 255))
                 \<and> tdata t ! (p + 2 * ?n) = toFloat32 (d_div (Num (real (unat b))) (Num 255))"
    if "p < ?n" for p
    using planes that by (cases "?canvas ! p") (simp add: channelValue_def)
  have gray: "tdata t ! p = Num (8421505 / 2 ^ 24) \<and> tdata t ! (p + ?n) = Num (8421505 / 2 ^ 24)
              \<and> tdata t ! (p + 2 * ?n) = Num (8421505 / 2 ^ 24)"
    if "p < ?n"
      "drawImage browser (letterbox (inputSize this) (canvasWidth canvas) (canvasHeight canvas)) p
         = None"
    for p
    using planes that tempCanvasOf_unpainted [OF that]
    by (simp add: grayPixel_def channelValue_gray)
  show "\<exists>t. preprocessImage this browser canvas = Inr t
        \<and> dims t = [1, 3, inputSize this, inputSize this]
        \<and> length (tdata t) = 3 * inputSize this * inputSize this
        \<and> (\<forall>k < length (tdata t). \<exists>r. tdata t ! k = Num r \<and> 0 \<le> r \<and> r \<le> 1)
        \<and> (\<forall>p. p < ?n \<longrightarrow>
              (case ?canvas ! p of (r, g, b, a) \<Rightarrow>
                 tdata t ! p = toFloat32 (d_div (Num (real (unat r))) (Num 255))
                 \<and> tdata t ! (p + ?n) = toFloat32 (d_div (Num (real (unat g))) (Num 255))
                 \<and> tdata t ! (p + 2 * ?n) = toFloat32 (d_div (Num (real (unat b))) (Num 255))))
        \<and> (\<forall>p. p < ?n \<longrightarrow>
              drawImage browser
                (letterbox (inputSize this) (canvasWidth canvas) (canvasHeight canvas)) p = None \<longrightarrow>
              tdata t ! p = Num (8421505 / 2 ^ 24)
              \<and> tdata t ! (p + ?n) = Num (8421505 / 2 ^ 24)
              \<and> tdata t ! (p + 2 * ?n) = Num (8421505 / 2 ^ 24))"
    using t d len range planar gray by (intro exI [of _ t]) (simp add: mult.assoc)
next
  from channelValue_range [of c]
  show "\<exists>v. toFloat32 (d_div (Num (real (unat c))) (Num 255)) = Num v
          \<and> \<bar>v - real (unat c) / 255\<bar> \<le> 1 / 2 ^ 23"
    unfolding channelValue_def by blast
next
  show "\<bar>8421505 / 2 ^ 24 - 128 / (255 :: real)\<bar> \<le> 1 / 2 ^ 25" by simp
qed

text \<open>
  Claim C8, as stated, gives the shape as \<open>[3, S, S]\<close> and the border value as
  \<open>128/255\<close>. The tensor is built with the four dimensions \<open>[1, 3, S, S]\<close>, and its
  first element, a border pixel of the 640 by 480 example, is the single-precision
  number \<open>8421505 / 2^24 = 0.501960813999176\<close>, which is not \<open>128/255\<close>.
\<close>

theorem preprocessImage_shape_counterexample:
  "map_sum id dims (preprocessImage newService exampleBrowser exampleCanvas)
     = Inr [1, 3, 640, 640]
   \<and> map_sum id (hd \<circ> tdata) (preprocessImage newService exampleBrowser exampleCanvas)
     = Inr (Num (8421505 / 2 ^ 24))
   \<and> (8421505 / 2 ^ 24 :: real) \<noteq> 128 / 255"
proof -
  have ctx: "canvasContext exampleBrowser" "tempContext exampleBrowser"
    by (simp_all add: exampleBrowser_def)
  have sz: "canvasWidth exampleCanvas = 640" "canvasHeight exampleCanvas = 480"
    by (simp_all add: exampleCanvas_def)
  from preprocessImage_tensor [OF ctx refl, of newService exampleCanvas] obtain t where
    t: "preprocessImage newService exampleBrowser exampleCanvas = Inr t"
    and d: "dims t = [1, 3, inputSize newService, inputSize newService]"
    and len: "length (tdata t) = 3 * (inputSize newService * inputSize newService)"
    and planes: "\<forall>p<inputSize newService * inputSize newService.
          tdata t ! p = channelValue (fst (tempCanvasOf newService exampleBrowser exampleCanvas ! p))"
    by blast
  have "tempCanvasOf newService exampleBrowser exampleCanvas ! 0 = grayPixel"
    by (rule tempCanvasOf_unpainted) (simp_all add: newService_fields sz example_unpainted)
  with planes have "tdata t ! 0 = Num (8421505 / 2 ^ 24)"
    by (simp add: newService_fields grayPixel_def channelValue_gray)
  moreover from len have "tdata t \<noteq> []" by (auto simp: newService_fields)
  ultimately have "hd (tdata t) = Num (8421505 / 2 ^ 24)" by (simp add: hd_conv_nth)
  with t d show ?thesis by (simp add: newService_fields)
qed

text \<open>
  A 640 by 480 source: the destination rectangle starts at row 80, so pixel 0 belongs to
  the border and holds \<open>8421505 / 2^24\<close> in all three planes; and the value stored for
  the byte 200 is \<open>13158601 / 2^24 = 0.7843137383460999\<close>.
\<close>

theorem preprocessImage_letterbox_tensor_witness:
  "canvasContext exampleBrowser \<and> tempContext exampleBrowser
   \<and> drawImage exampleBrowser (letterbox 640 640 480) 0 = None
   \<and> (\<exists>t. preprocessImage newService exampleBrowser exampleCanvas = Inr t
         \<and> dims t = [1, 3, 640, 640]
         \<and> length (tdata t) = 1228800
         \<and> tdata t ! 0 = Num (8421505 / 2 ^ 24)
         \<and> tdata t ! 409600 = Num (8421505 / 2 ^ 24)
         \<and> tdata t ! 819200 = Num (8421505 / 2 ^ 24))
   \<and> toFloat32 (d_div (Num (real (unat (200 :: byte)))) (Num 255)) = Num (13158601 / 2 ^ 24)
   \<and> \<bar>13158601 / 2 ^ 24 - real (unat (200 :: byte)) / 255\<bar> \<le> 1 / 2 ^ 23"
proof -
  have ctx: "canvasContext exampleBrowser" "tempContext exampleBrowser"
    by (simp_all add: exampleBrowser_def)
  have sz: "canvasWidth exampleCanvas = 640" "canvasHeight exampleCanvas = 480"
    by (simp_all add: exampleCanvas_def)
  note claim = preprocessImage_letterbox_tensor [of exampleBrowser newService exampleCanvas 200]
  from claim ctx
  obtain t where t: "preprocessImage newService exampleBrowser exampleCanvas = Inr t"
    and d: "dims t = [1, 3, inputSize newService, inputSize newService]"
    and len: "length (tdata t) = 3 * inputSize newService * inputSize newService"
    and gray: "\<forall>p. p < inputSize newService * inputSize newService \<longrightarrow>
              drawImage exampleBrowser
                (letterbox (inputSize newService) (canvasWidth exampleCanvas)
                   (canvasHeight exampleCanvas)) p = None \<longrightarrow>
              tdata t ! p = Num (8421505 / 2 ^ 24)
              \<and> tdata t ! (p + inputSize newService * inputSize newService) = Num (8421505 / 2 ^ 24)
              \<and> tdata t ! (p + 2 * (inputSize newService * inputSize newService))
                  = Num (8421505 / 2 ^ 24)"
    by blast
  have "\<exists>v. toFloat32 (d_div (Num (real (unat (200 :: byte)))) (Num 255)) = Num v
          \<and> \<bar>v - real (unat (200 :: byte)) / 255\<bar> \<le> 1 / 2 ^ 23"
    by (rule conjunct1 [OF conjunct2 [OF claim]])
  moreover have stored:
    "toFloat32 (d_div (Num (real (unat (200 :: byte)))) (Num 255)) = Num (13158601 / 2 ^ 24)"
    using channelValue_200 unfolding channelValue_def by simp
  ultimately have close:
    "\<bar>13158601 / 2 ^ 24 - real (unat (200 :: byte)) / 255\<bar> \<le> 1 / 2 ^ 23"
    by auto
  from gray [rule_format, of 0] example_unpainted
  have "tdata t ! 0 = Num (8421505 / 2 ^ 24) \<and> tdata t ! 409600 = Num (8421505 / 2 ^ 24)
      \<and> tdata t ! 819200 = Num (8421505 / 2 ^ 24)"
    by (simp add: newService_fields sz)
  with t d len have "\<exists>t. preprocessImage newService exampleBrowser exampleCanvas = Inr t
         \<and> dims t = [1, 3, 640, 640]
         \<and> length (tdata t) = 1228800
         \<and> tdata t ! 0 = Num (8421505 / 2 ^ 24)
         \<and> tdata t ! 409600 = Num (8421505 / 2 ^ 24)
         \<and> tdata t ! 819200 = Num (8421505 / 2 ^ 24)"
    by (intro exI [of _ t]) (simp add: newService_fields)
  with ctx example_unpainted stored close show ?thesis by blast
qed

lemma preprocessImage_succeeds:
  "canvasContext browser \<Longrightarrow> tempContext browser \<Longrightarrow>
     \<exists>t. preprocessImage this browser canvas = Inr t"
  by (simp add: preprocessImage_def Let_def)

lemma detectObjects_on_timeout:
  assumes timeout: "\<forall>inputName tensor. runInference browser inputName tensor = TimedOut"
    and ready: "modelLoaded this" "session this \<noteq> None"
      "mediaWidth mediaSource \<noteq> 0" "mediaHeight mediaSource \<noteq> 0"
      "isVideo mediaSource \<longrightarrow> 2 \<le> readyState mediaSource \<and> \<not> paused mediaSource
          \<and> \<not> ended mediaSource \<and> \<not> seeking mediaSource \<and> \<not> networkLoading mediaSource"
    and ctx: "canvasContext browser" "tempContext browser"
  shows "detectObjects this browser mediaSource = Inl InferenceTimeout"
proof -
  obtain sess where sess: "session this = Some sess" using ready(2) by blast
  obtain t where t: "preprocessImage this browser
      \<lparr>canvasWidth = mediaWidth mediaSource, canvasHeight = mediaHeight mediaSource\<rparr> = Inr t"
    using preprocessImage_succeeds [OF ctx] by blast
  have guards: "\<not> (isVideo mediaSource
        \<and> (readyState mediaSource < 2 \<or> paused mediaSource \<or> ended mediaSource))"
    "\<not> (isVideo mediaSource \<and> (seeking mediaSource \<or> networkLoading mediaSource))"
    using ready(5) by auto
  show ?thesis
    unfolding detectObjects_def sess option.case t sum.case
    using ready(1,3,4) guards ctx(1) timeout by simp
qed

lemma detectObjects_timeout_cases:
  assumes timeout: "\<forall>inputName tensor. runInference browser inputName tensor = TimedOut"
  shows "detectObjects this browser mediaSource \<in>
     {Inr [], Inl CanvasContextError, Inl TempCanvasContextError, Inl InferenceTimeout}"
proof (cases "canvasContext browser \<and> tempContext browser")
  case True
  then obtain t where t: "preprocessImage this browser
      \<lparr>canvasWidth = mediaWidth mediaSource, canvasHeight = mediaHeight mediaSource\<rparr> = Inr t"
    using preprocessImage_succeeds by blast
  show ?thesis
    unfolding detectObjects_def t sum.case
    using timeout by (simp split: option.splits)
next
  case False
  then have "preprocessImage this browser
      \<lparr>canvasWidth = mediaWidth mediaSource, canvasHeight = mediaHeight mediaSource\<rparr>
      = Inl (if \<not> canvasContext browser then CanvasContextError else TempCanvasContextError)"
    by (auto simp: preprocessImage_def)
  then show ?thesis
    unfolding detectObjects_def by (simp split: option.splits)
qed

text \<open>
  Claim C1, as stated, fails: with a loaded model and a ready image, a timeout makes
  \<open>detectObjects\<close> reject with the timeout error instead of resolving to an empty list.
\<close>

theorem detectObjects_timeout_counterexample:
  "detectObjects loadedService exampleBrowser exampleImage = Inl InferenceTimeout"
  by (rule detectObjects_on_timeout)
    (simp_all add: loadedService_def exampleBrowser_def exampleImage_def newService_def)

text \<open>
  Claim C1, amended. When the inference loses the race against the 100 ms timer, a call
  that reaches the inference rejects with the error \<open>Inference timeout\<close>, which the
  \<open>catch\<close> block logs and throws again; a call that resolves at all resolves to the
  empty list; and the caller \<open>detectOnce\<close>, which catches the error, returns the empty
  list.
\<close>

theorem detectObjects_timeout_rethrown:
  "(\<forall>inputName tensor. runInference browser inputName tensor = TimedOut) \<longrightarrow>
     (modelLoaded this \<and> session this \<noteq> None
        \<and> mediaWidth mediaSource \<noteq> 0 \<and> mediaHeight mediaSource \<noteq> 0
        \<and> (isVideo mediaSource \<longrightarrow> 2 \<le> readyState mediaSource \<and> \<not> paused mediaSource
              \<and> \<not> ended mediaSource \<and> \<not> seeking mediaSource \<and> \<not> networkLoading mediaSource)
        \<and> canvasContext browser \<and> tempContext browser
        \<longrightarrow> detectObjects this browser mediaSource = Inl InferenceTimeout)
     \<and> (\<forall>detections. detectObjects this browser mediaSource = Inr detections \<longrightarrow> detections = [])
     \<and> detectOnce this browser mediaSource threshold = []"
proof (intro impI conjI allI)
  assume timeout: "\<forall>inputName tensor. runInference browser inputName tensor = TimedOut"
  note cases = detectObjects_timeout_cases [OF timeout, of this mediaSource]
  show "detectObjects this browser mediaSource = Inl InferenceTimeout"
    if "modelLoaded this \<and> session this \<noteq> None
        \<and> mediaWidth mediaSource \<noteq> 0 \<and> mediaHeight mediaSource \<noteq> 0
        \<and> (isVideo mediaSource \<longrightarrow> 2 \<le> readyState mediaSource \<and> \<not> paused mediaSource
              \<and> \<not> ended mediaSource \<and> \<not> seeking mediaSource \<and> \<not> networkLoading mediaSource)
        \<and> canvasContext browser \<and> tempContext browser"
    using detectObjects_on_timeout [OF timeout, of this mediaSource] that by blast
  show "detections = []" if "detectObjects this browser mediaSource = Inr detections"
    for detections
    using cases that by auto
  show "detectOnce this browser mediaSource threshold = []"
    using cases by (auto simp: detectOnce_def)
qed

text \<open>The example browser, whose inference always times out.\<close>

theorem detectObjects_timeout_rethrown_witness:
  "(\<forall>inputName tensor. runInference exampleBrowser inputName tensor = TimedOut)
   \<and> modelLoaded loadedService \<and> session loadedService \<noteq> None
   \<and> mediaWidth exampleImage \<noteq> 0 \<and> mediaHeight exampleImage \<noteq> 0
   \<and> \<not> isVideo exampleImage
   \<and> canvasContext exampleBrowser \<and> tempContext exampleBrowser
   \<and> detectObjects loadedService exampleBrowser exampleImage = Inl InferenceTimeout
   \<and> detectOnce loadedService exampleBrowser exampleImage (1/2) = []
   \<and> detectObjects loadedService exampleBrowser notReadyImage = Inr []"
proof -
  have facts: "\<forall>inputName tensor. runInference exampleBrowser inputName tensor = TimedOut"
    "modelLoaded loadedService" "session loadedService \<noteq> None"
    "mediaWidth exampleImage \<noteq> 0" "mediaHeight exampleImage \<noteq> 0" "\<not> isVideo exampleImage"
    "canvasContext exampleBrowser" "tempContext exampleBrowser"
    by (simp_all add: loadedService_def exampleBrowser_def exampleImage_def newService_def)
  have "detectObjects loadedService exampleBrowser notReadyImage = Inr []"
    by (simp add: detectObjects_def loadedService_def notReadyImage_def exampleImage_def)
  with facts show ?thesis
    using detectObjects_timeout_rethrown [of exampleBrowser loadedService exampleImage "1/2"]
    by simp
qed

text \<open>
  Claim C9: when the model is not loaded, or the width or the height of the source is 0,
  \<open>detectObjects\<close> resolves to the empty list; no error is raised.
\<close>

theorem detectObjects_not_ready:
  "\<not> modelLoaded this \<or> session this = None
     \<or> mediaWidth mediaSource = 0 \<or> mediaHeight mediaSource = 0 \<longrightarrow>
   detectObjects this browser mediaSource = Inr []"
  by (auto simp: detectObjects_def split: option.splits)

text \<open>A service that has not loaded its model, and a loaded one given a source of size 0.\<close>

theorem detectObjects_not_ready_witness:
  "\<not> modelLoaded newService
   \<and> detectObjects newService exampleBrowser exampleImage = Inr []
   \<and> modelLoaded loadedService \<and> session loadedService \<noteq> None
   \<and> mediaWidth notReadyImage = 0
   \<and> detectObjects loadedService exampleBrowser notReadyImage = Inr []"
  using detectObjects_not_ready [of newService exampleImage exampleBrowser]
    detectObjects_not_ready [of loadedService notReadyImage exampleBrowser]
  by (simp add: newService_def loadedService_def notReadyImage_def)


end
